theory Spec2Isabelle
  imports Main "HOL-Library.Word"
begin

section \<open>The float64 type of the calculator\<close>

text \<open>
  \<^verbatim>\<open>main.go\<close> declares \<^verbatim>\<open>func Add(x, y float64) float64 { return x + y }\<close> and
  \<^verbatim>\<open>func Verify(got, want float64) bool { return true }\<close>. A Go \<^verbatim>\<open>float64\<close> is an
  IEEE 754 binary64 datum: 64 bits, of which bit 63 is the sign, bits 62..52 the biased
  exponent and bits 51..0 the fraction. Every one of the \<open>2 ^ 64\<close> bit patterns is a
  float64, so the type is \<open>64 word\<close>.
\<close>

type_synonym float64 = "64 word"

definition sign_bit :: "float64 \<Rightarrow> bool" where
  "sign_bit x = (2 ^ 63 \<le> unat x)"

definition expo :: "float64 \<Rightarrow> nat" where
  "expo x = (unat x div 2 ^ 52) mod 2048"

definition frac :: "float64 \<Rightarrow> nat" where
  "frac x = unat x mod 2 ^ 52"

definition is_nan :: "float64 \<Rightarrow> bool" where
  "is_nan x = (expo x = 2047 \<and> frac x \<noteq> 0)"

definition is_inf :: "float64 \<Rightarrow> bool" where
  "is_inf x = (expo x = 2047 \<and> frac x = 0)"

definition is_finite :: "float64 \<Rightarrow> bool" where
  "is_finite x = (expo x < 2047)"

text \<open>
  Every finite float64 is an integer multiple of \<open>2 powr -1074\<close>, the least positive
  subnormal. \<open>magnitude\<close> is the absolute value in that unit and \<open>scaled\<close> the signed
  value: a subnormal (exponent field 0) is worth its fraction, a normal number with
  exponent field \<open>e\<close> is worth \<open>(2 ^ 52 + fraction) * 2 ^ (e - 1)\<close>.
\<close>

definition magnitude :: "float64 \<Rightarrow> nat" where
  "magnitude x = (if expo x = 0 then frac x else (2 ^ 52 + frac x) * 2 ^ (expo x - 1))"

definition scaled :: "float64 \<Rightarrow> int" where
  "scaled x = (if sign_bit x then - int (magnitude x) else int (magnitude x))"

text \<open>Named values: the literals of the tests and the non-finite values.\<close>

definition pos_zero :: float64 where "pos_zero = 0"
definition neg_zero :: float64 where "neg_zero = 0x8000000000000000"
definition pos_inf :: float64 where "pos_inf = 0x7FF0000000000000"
definition neg_inf :: float64 where "neg_inf = 0xFFF0000000000000"
definition quiet_nan :: float64 where "quiet_nan = 0x7FF8000000000000"
definition max_float :: float64 where "max_float = 0x7FEFFFFFFFFFFFFF"
definition neg_max_float :: float64 where "neg_max_float = 0xFFEFFFFFFFFFFFFF"
definition f64_one :: float64 where "f64_one = 0x3FF0000000000000"
definition f64_2p100 :: float64 where "f64_2p100 = 0x4630000000000000"
definition neg_2p100 :: float64 where "neg_2p100 = 0xC630000000000000"
definition f64_2p53 :: float64 where "f64_2p53 = 0x4340000000000000"

text \<open>The float64 values of the literals \<^verbatim>\<open>0.1\<close>, \<^verbatim>\<open>0.2\<close> and \<^verbatim>\<open>0.3\<close>.\<close>

definition f64_tenth :: float64 where "f64_tenth = 0x3FB999999999999A"
definition f64_fifth :: float64 where "f64_fifth = 0x3FC999999999999A"
definition f64_three_tenths :: float64 where "f64_three_tenths = 0x3FD3333333333333"

subsection \<open>Rounding to nearest, ties to even\<close>

text \<open>\<open>bitlen n\<close> is the number of binary digits of \<open>n\<close>.\<close>

fun bitlen :: "nat \<Rightarrow> nat" where
  "bitlen n = (if n = 0 then 0 else Suc (bitlen (n div 2)))"

declare bitlen.simps [simp del]

text \<open>
  \<open>round_mag n\<close> is the bit pattern (sign bit clear) of the float64 nearest to \<open>n\<close>
  units. Below \<open>2 ^ 53\<close> units every integer is a float64 and its pattern is the integer
  itself. Above, the 53 leading bits \<open>q\<close> are kept and the \<open>k\<close> dropped bits \<open>r\<close> decide:
  up when they exceed half a unit in the last place, or when they are exactly half and
  \<open>q\<close> is odd. A carry out of \<open>q\<close> moves into the exponent field by itself, and a
  pattern that reaches exponent field 2047 is the infinity.
\<close>

definition round_mag :: "nat \<Rightarrow> nat" where
  "round_mag n =
     (if n < 2 ^ 53 then n
      else let k = bitlen n - 53;
               q = n div 2 ^ k;
               r = n mod 2 ^ k;
               h = 2 ^ (k - 1);
               q' = (if h < r \<or> (r = h \<and> odd q) then q + 1 else q);
               b = k * 2 ^ 52 + q'
           in if 2047 * 2 ^ 52 \<le> b then 2047 * 2 ^ 52 else b)"

text \<open>
  \<open>pattern x\<close> is the bit pattern of \<open>x\<close> with the sign bit cleared: the exponent and
  fraction fields, which is what \<open>round_mag\<close> computes.
\<close>

definition pattern :: "float64 \<Rightarrow> nat" where
  "pattern x = unat x mod 2 ^ 63"

text \<open>
  The largest finite float64 is worth \<open>(2 ^ 53 - 1) * 2 ^ 2045\<close> units, and the next
  number of 53 bits at that scale would be \<open>2 ^ 53 * 2 ^ 2045\<close>. IEEE 754 rounds to an
  infinity every sum whose magnitude is at least halfway between the two.
\<close>

definition overflow_threshold :: nat where
  "overflow_threshold = (2 ^ 53 - 1) * 2 ^ 2045 + 2 ^ 2044"

subsection \<open>The operators \<^verbatim>\<open>+\<close> and \<^verbatim>\<open>==\<close> on float64\<close>

text \<open>
  IEEE 754 addition in the default rounding mode, which is what Go's \<^verbatim>\<open>+\<close> on float64
  computes: a NaN operand gives NaN; infinities of opposite sign give NaN; otherwise an
  infinite operand is the result; two finite operands are added exactly and the sum is
  rounded. An exact sum of zero is \<open>-0\<close> only when both operands are negative (then both
  are \<open>-0\<close>), \<open>+0\<close> otherwise. The payload of a NaN result is left open by the language;
  the model returns the quiet NaN with an empty payload, and no statement below looks at
  the payload.
\<close>

definition f64_add :: "float64 \<Rightarrow> float64 \<Rightarrow> float64" where
  "f64_add x y =
     (if is_nan x \<or> is_nan y then quiet_nan
      else if is_inf x then (if is_inf y \<and> sign_bit x \<noteq> sign_bit y then quiet_nan else x)
      else if is_inf y then y
      else let s = scaled x + scaled y in
        if s = 0 then (if sign_bit x \<and> sign_bit y then neg_zero else pos_zero)
        else if s < 0 then of_nat (2 ^ 63 + round_mag (nat (- s)))
        else of_nat (round_mag (nat s)))"

text \<open>
  Go's \<^verbatim>\<open>==\<close> on float64 compares numerical values: a NaN is equal to nothing, itself
  included, and the two zeros are equal.
\<close>

definition f64_eq :: "float64 \<Rightarrow> float64 \<Rightarrow> bool" where
  "f64_eq x y =
     (\<not> is_nan x \<and> \<not> is_nan y \<and>
      (if is_inf x \<or> is_inf y then is_inf x \<and> is_inf y \<and> sign_bit x = sign_bit y
       else scaled x = scaled y))"

section \<open>The calculator\<close>

definition Add :: "float64 \<Rightarrow> float64 \<Rightarrow> float64" where
  "Add x y = f64_add x y"

definition Verify :: "float64 \<Rightarrow> float64 \<Rightarrow> bool" where
  "Verify got want = True"

section \<open>The tests and their helpers\<close>

text \<open>
  What the helpers use of \<^verbatim>\<open>*testing.T\<close>: the failed flag and the log. \<^verbatim>\<open>t.Fatal\<close>
  and \<^verbatim>\<open>t.Fatalf\<close> log their arguments, mark the test failed and stop the calling
  goroutine (\<^verbatim>\<open>runtime.Goexit\<close>), so a call that reaches them does not return: the
  outcome of a call is either a returned value or \<open>Goexit\<close>.
\<close>

record 'm testing_T =
  failed :: bool
  logged :: "'m list"

datatype 'a outcome = Returns 'a | Goexit

definition Fatal :: "'m \<Rightarrow> 'm testing_T \<Rightarrow> 'm testing_T" where
  "Fatal msg t = t\<lparr>failed := True, logged := logged t @ [msg]\<rparr>"

text \<open>
  \<^verbatim>\<open>TestAddZeros\<close>: \<^verbatim>\<open>var expected float64\<close> is the zero value, and the test stops
  with \<^verbatim>\<open>t.Fatalf("expected %f found %f", expected, actual)\<close> when
  \<^verbatim>\<open>expected != actual\<close>. The log entry is the pair of arguments of the format.
\<close>

definition TestAddZeros :: "(float64 \<times> float64) testing_T \<Rightarrow> unit outcome \<times> (float64 \<times> float64) testing_T" where
  "TestAddZeros t =
     (let expected = pos_zero;
          actual = Add pos_zero pos_zero
      in if \<not> f64_eq expected actual then (Goexit, Fatal (expected, actual) t)
         else (Returns (), t))"

text \<open>
  The two parsing helpers call \<^verbatim>\<open>strconv.ParseFloat(input, 64)\<close>, a function of the
  standard library that returns a float64 together with an error (\<open>None\<close> is
  \<^verbatim>\<open>nil\<close>). The helpers are modelled for any such function, which they take as their
  first argument.
\<close>

definition testFloatParserReturnsError ::
  "(string \<Rightarrow> float64 \<times> 'e option) \<Rightarrow> string \<Rightarrow> float64 \<times> 'e option" where
  "testFloatParserReturnsError ParseFloat input =
     (case ParseFloat input of (out, err) \<Rightarrow>
        if err \<noteq> None then (out, err)
        else (out, None))"

definition testFloatParserFails ::
  "(string \<Rightarrow> float64 \<times> 'e option) \<Rightarrow> 'e testing_T \<Rightarrow> string \<Rightarrow> float64 outcome \<times> 'e testing_T" where
  "testFloatParserFails ParseFloat t input =
     (case ParseFloat input of (out, err) \<Rightarrow>
        (case err of Some e \<Rightarrow> (Goexit, Fatal e t)
         | None \<Rightarrow> (Returns out, t)))"

text \<open>
  For the instances below, \<open>ParseFloat_sample\<close> stands for \<^verbatim>\<open>strconv.ParseFloat\<close> on
  the two inputs it is run at: \<^verbatim>\<open>"10"\<close>, the string of the tests, parses to 10, and
  \<^verbatim>\<open>"ten"\<close> is a syntax error, returned with the value 0.
\<close>

datatype num_error = ErrSyntax string | ErrRange string

definition f64_ten :: float64 where "f64_ten = 0x4024000000000000"

definition ParseFloat_sample :: "string \<Rightarrow> float64 \<times> num_error option" where
  "ParseFloat_sample s = (if s = ''10'' then (f64_ten, None) else (pos_zero, Some (ErrSyntax s)))"

text \<open>
  The process environment is a map from names to values. \<^verbatim>\<open>os.Getenv\<close> returns the
  empty string for a name that is not set. \<^verbatim>\<open>os.Setenv\<close> returns an error and
  changes nothing when the name is empty or holds \<^verbatim>\<open>=\<close> or a NUL byte, or when the
  value holds a NUL byte (\<^verbatim>\<open>syscall.Setenv\<close> on Unix, \<^verbatim>\<open>EINVAL\<close>); otherwise
  it binds the name to the value.
\<close>

type_synonym environ = "string \<Rightarrow> string option"

datatype errno = EINVAL

definition Getenv :: "string \<Rightarrow> environ \<Rightarrow> string" where
  "Getenv key env = (case env key of None \<Rightarrow> [] | Some v \<Rightarrow> v)"

definition setenv_accepts :: "string \<Rightarrow> string \<Rightarrow> bool" where
  "setenv_accepts key val =
     (key \<noteq> [] \<and> CHR ''='' \<notin> set key \<and> CHR 0x00 \<notin> set key \<and> CHR 0x00 \<notin> set val)"

definition Setenv :: "string \<Rightarrow> string \<Rightarrow> environ \<Rightarrow> errno option \<times> environ" where
  "Setenv key val env =
     (if setenv_accepts key val then (None, env(key \<mapsto> val)) else (Some EINVAL, env))"

text \<open>
  \<^verbatim>\<open>testSetENV\<close> reads the variable, sets it, and returns the closure that sets it
  to what was read. Both calls of \<^verbatim>\<open>os.Setenv\<close> drop the error. The result is the
  closure, a function on the environment it will run in, and the environment after the
  call.
\<close>

definition testSetENV :: "string \<Rightarrow> string \<Rightarrow> environ \<Rightarrow> (environ \<Rightarrow> environ) \<times> environ" where
  "testSetENV key val env =
     (let ogENV = Getenv key env;
          env' = snd (Setenv key val env)
      in (\<lambda>e. snd (Setenv key ogENV e), env'))"

text \<open>\<^verbatim>\<open>restore := testSetENV(key, value); restore()\<close>: the helper, then its closure.\<close>

definition set_then_restore :: "string \<Rightarrow> string \<Rightarrow> environ \<Rightarrow> environ" where
  "set_then_restore key val env = (case testSetENV key val env of (restore, env') \<Rightarrow> restore env')"

section \<open>Facts about the encoding\<close>

lemma unat_lt64: "unat (x::float64) < 2 ^ 64"
  using unsigned_less [of x, where ?'a = nat] by simp

lemma frac_lt: "frac x < 2 ^ 52"
  by (simp add: frac_def)

lemma expo_lt: "expo x < 2048"
  by (simp add: expo_def)

text \<open>A float64 is its three fields put side by side.\<close>

lemma unat_fields:
  "unat x = (if sign_bit x then 2 ^ 63 else 0) + expo x * 2 ^ 52 + frac x"
proof -
  define u where "u = unat x"
  define d where "d = u div 2 ^ 52"
  have u: "u < 2 ^ 64" unfolding u_def by (rule unat_lt64)
  have ud: "u = d * 2 ^ 52 + u mod 2 ^ 52" unfolding d_def by simp
  have d: "d < 4096" unfolding d_def using u by (simp add: less_mult_imp_div_less)
  have s: "(2 ^ 63 \<le> u) = (2048 \<le> d)" unfolding d_def
    by (simp add: le_div_geq less_eq_div_iff_mult_less_eq)
  have dm: "d = (if 2048 \<le> d then 2048 else 0) + d mod 2048" using d
    by (auto simp: le_mod_geq)
  have "u = ((if 2048 \<le> d then 2048 else 0) + d mod 2048) * 2 ^ 52 + u mod 2 ^ 52"
    using ud dm by simp
  also have "\<dots> = (if 2 ^ 63 \<le> u then 2 ^ 63 else 0) + (d mod 2048) * 2 ^ 52 + u mod 2 ^ 52"
    unfolding s by (simp add: algebra_simps)
  finally show ?thesis
    unfolding sign_bit_def expo_def frac_def u_def [symmetric] d_def [symmetric] .
qed

lemma float64_eqI:
  assumes "sign_bit x = sign_bit y" "expo x = expo y" "frac x = frac y"
  shows "x = y"
proof -
  have "unat x = unat y" using assms by (simp add: unat_fields [of x] unat_fields [of y])
  then show ?thesis by (rule word_unat_eq_iff [THEN iffD2])
qed

lemma finite_or_inf_or_nan: "is_finite x \<or> is_inf x \<or> is_nan x"
  using expo_lt [of x] by (auto simp: is_finite_def is_inf_def is_nan_def)

lemma is_nan_quiet_nan: "is_nan quiet_nan"
  by (simp add: is_nan_def quiet_nan_def expo_def frac_def)

lemma is_inf_pos_inf: "is_inf pos_inf" and is_inf_neg_inf: "is_inf neg_inf"
  by (simp_all add: is_inf_def pos_inf_def neg_inf_def expo_def frac_def)

lemma sign_bit_infs: "\<not> sign_bit pos_inf" "sign_bit neg_inf"
  by (simp_all add: sign_bit_def pos_inf_def neg_inf_def)

lemma nan_not_inf: "is_nan x \<Longrightarrow> \<not> is_inf x"
  by (simp add: is_nan_def is_inf_def)

lemma inf_same_sign_eq:
  "is_inf x \<Longrightarrow> is_inf y \<Longrightarrow> sign_bit x = sign_bit y \<Longrightarrow> x = y"
  by (rule float64_eqI) (simp_all add: is_inf_def)

text \<open>The operator \<^verbatim>\<open>+\<close> does not depend on the order of its operands.\<close>

lemma f64_add_commute: "f64_add x y = f64_add y x"
proof -
  have s: "scaled x + scaled y = scaled y + scaled x" by simp
  show ?thesis
    unfolding f64_add_def s
    by (auto simp: nan_not_inf dest: inf_same_sign_eq)
qed

lemma f64_eq_refl: "f64_eq x x = (\<not> is_nan x)"
  by (simp add: f64_eq_def)

section \<open>Evaluating the rounding\<close>

lemma bitlen_0: "bitlen 0 = 0"
  by (simp add: bitlen.simps)

lemma bitlen_pos: "0 < n \<Longrightarrow> bitlen n = Suc (bitlen (n div 2))"
  by (subst bitlen.simps) simp

text \<open>A number between \<open>2 ^ k\<close> and \<open>2 ^ (k + 1)\<close> has \<open>k + 1\<close> binary digits.\<close>

lemma bitlen_eqI: "2 ^ k \<le> n \<Longrightarrow> n < 2 ^ Suc k \<Longrightarrow> bitlen n = Suc k"
proof (induction k arbitrary: n)
  case 0
  then have "n = 1" by simp
  then show ?case by (simp add: bitlen_pos bitlen_0)
next
  case (Suc k)
  have "2 ^ k \<le> n div 2" using Suc.prems by simp
  moreover have "n div 2 < 2 ^ Suc k" using Suc.prems by simp
  ultimately have "bitlen (n div 2) = Suc k" by (rule Suc.IH)
  moreover have "0 < n"
    using Suc.prems(1) by (metis gr0I power_not_zero zero_neq_numeral le_zero_eq)
  ultimately show ?case by (simp add: bitlen_pos)
qed

text \<open>\<open>round_mag\<close> with the number of dropped bits given, for evaluation at a numeral.\<close>

lemma round_mag_at:
  assumes "2 ^ (52 + k) \<le> n" "n < 2 ^ (53 + k)" "0 < k"
  shows "round_mag n =
     (let q = n div 2 ^ k; r = n mod 2 ^ k; h = 2 ^ (k - 1);
          q' = (if h < r \<or> (r = h \<and> odd q) then q + 1 else q);
          b = k * 2 ^ 52 + q'
      in if 2047 * 2 ^ 52 \<le> b then 2047 * 2 ^ 52 else b)"
proof -
  have "bitlen n = Suc (52 + k)" using assms by (intro bitlen_eqI) simp_all
  then have k: "bitlen n - 53 = k" by simp
  have "2 ^ 53 \<le> (2::nat) ^ (52 + k)" using assms(3) by (intro power_increasing) simp_all
  then have "\<not> n < 2 ^ 53" using assms(1) by linarith
  then show ?thesis by (simp add: round_mag_def k Let_def)
qed

lemma finite_not_nan_inf: "is_finite x \<Longrightarrow> \<not> is_nan x \<and> \<not> is_inf x"
  by (simp add: is_finite_def is_nan_def is_inf_def)

lemma Add_finite_pos:
  "is_finite x \<Longrightarrow> is_finite y \<Longrightarrow> 0 < scaled x + scaled y \<Longrightarrow>
   Add x y = of_nat (round_mag (nat (scaled x + scaled y)))"
  by (simp add: Add_def f64_add_def finite_not_nan_inf Let_def)

lemma Add_finite_neg:
  "is_finite x \<Longrightarrow> is_finite y \<Longrightarrow> scaled x + scaled y < 0 \<Longrightarrow>
   Add x y = of_nat (2 ^ 63 + round_mag (nat (- (scaled x + scaled y))))"
  by (simp add: Add_def f64_add_def finite_not_nan_inf Let_def)

lemma Add_finite_zero:
  "is_finite x \<Longrightarrow> is_finite y \<Longrightarrow> scaled x + scaled y = 0 \<Longrightarrow>
   Add x y = (if sign_bit x \<and> sign_bit y then neg_zero else pos_zero)"
  by (simp add: Add_def f64_add_def finite_not_nan_inf Let_def)

lemmas field_defs = is_finite_def is_nan_def is_inf_def expo_def frac_def sign_bit_def
  magnitude_def scaled_def

text \<open>\<^verbatim>\<open>1 + 10\<close> is 11.\<close>

lemma Add_one_ten: "Add f64_one f64_ten = 0x4026000000000000"
proof -
  have f: "is_finite f64_one" "is_finite f64_ten"
    by (simp_all add: field_defs f64_one_def f64_ten_def)
  have s: "scaled f64_one + scaled f64_ten = 11 * 2 ^ 1074"
    by (simp add: field_defs f64_one_def f64_ten_def)
  have r: "round_mag (11 * 2 ^ 1074) = 0x4026000000000000"
    by (simp add: round_mag_at [where k = 1025] Let_def)
  have "Add f64_one f64_ten = of_nat (round_mag (nat (scaled f64_one + scaled f64_ten)))"
    using f by (intro Add_finite_pos) (simp_all add: s)
  also have "\<dots> = of_nat (round_mag (11 * 2 ^ 1074))"
    unfolding s by simp
  finally show ?thesis unfolding r by simp
qed

text \<open>\<^verbatim>\<open>11 + 1\<close> is 12.\<close>

lemma Add_eleven_one: "Add 0x4026000000000000 f64_one = 0x4028000000000000"
proof -
  have f: "is_finite 0x4026000000000000" "is_finite f64_one"
    by (simp_all add: field_defs f64_one_def)
  have s: "scaled 0x4026000000000000 + scaled f64_one = 12 * 2 ^ 1074"
    by (simp add: field_defs f64_one_def)
  have r: "round_mag (12 * 2 ^ 1074) = 0x4028000000000000"
    by (simp add: round_mag_at [where k = 1025] Let_def)
  have "Add 0x4026000000000000 f64_one = of_nat (round_mag (nat (scaled 0x4026000000000000 + scaled f64_one)))"
    using f by (intro Add_finite_pos) (simp_all add: s)
  also have "\<dots> = of_nat (round_mag (12 * 2 ^ 1074))"
    unfolding s by simp
  finally show ?thesis unfolding r by simp
qed

text \<open>The additions of the two triples at which associativity fails.\<close>

lemma Add_one_2p100: "Add f64_one f64_2p100 = f64_2p100"
proof -
  have f: "is_finite f64_one" "is_finite f64_2p100"
    by (simp_all add: field_defs f64_one_def f64_2p100_def)
  have s: "scaled f64_one + scaled f64_2p100 = 2 ^ 1074 + 2 ^ 1174"
    by (simp add: field_defs f64_one_def f64_2p100_def)
  have r: "round_mag (2 ^ 1074 + 2 ^ 1174) = 0x4630000000000000"
    by (simp add: round_mag_at [where k = 1122] Let_def)
  have "Add f64_one f64_2p100 = of_nat (round_mag (nat (scaled f64_one + scaled f64_2p100)))"
    using f by (intro Add_finite_pos) (simp_all add: s)
  also have "\<dots> = of_nat (round_mag (2 ^ 1074 + 2 ^ 1174))"
    unfolding s by simp
  finally show ?thesis unfolding r by (simp add: f64_2p100_def)
qed

lemma Add_2p100_neg: "Add f64_2p100 neg_2p100 = pos_zero"
proof -
  have f: "is_finite f64_2p100" "is_finite neg_2p100"
    by (simp_all add: field_defs f64_2p100_def neg_2p100_def)
  have s: "scaled f64_2p100 + scaled neg_2p100 = 0"
    by (simp add: field_defs f64_2p100_def neg_2p100_def)
  have "\<not> sign_bit f64_2p100" by (simp add: sign_bit_def f64_2p100_def)
  then show ?thesis using Add_finite_zero [OF f s] by simp
qed

lemma Add_one_zero: "Add f64_one pos_zero = f64_one"
proof -
  have f: "is_finite f64_one" "is_finite pos_zero"
    by (simp_all add: field_defs f64_one_def pos_zero_def)
  have s: "scaled f64_one + scaled pos_zero = 2 ^ 1074"
    by (simp add: field_defs f64_one_def pos_zero_def)
  have r: "round_mag (2 ^ 1074) = 0x3FF0000000000000"
    by (simp add: round_mag_at [where k = 1022] Let_def)
  have "Add f64_one pos_zero = of_nat (round_mag (nat (scaled f64_one + scaled pos_zero)))"
    using f by (intro Add_finite_pos) (simp_all add: s)
  also have "\<dots> = of_nat (round_mag (2 ^ 1074))"
    unfolding s by simp
  finally show ?thesis unfolding r by (simp add: f64_one_def)
qed

lemma Add_max_max: "Add max_float max_float = pos_inf"
proof -
  have f: "is_finite max_float"
    by (simp_all add: field_defs max_float_def)
  have s: "scaled max_float + scaled max_float = (2 ^ 53 - 1) * 2 ^ 2046"
    by (simp add: field_defs max_float_def)
  have r: "round_mag ((2 ^ 53 - 1) * 2 ^ 2046) = 0x7FF0000000000000"
    by (simp add: round_mag_at [where k = 2046] Let_def)
  have "Add max_float max_float = of_nat (round_mag (nat (scaled max_float + scaled max_float)))"
    using f by (intro Add_finite_pos) (simp_all add: s)
  also have "\<dots> = of_nat (round_mag ((2 ^ 53 - 1) * 2 ^ 2046))"
    unfolding s by simp
  finally show ?thesis unfolding r by (simp add: pos_inf_def)
qed

lemma Add_inf_neg_max: "Add pos_inf neg_max_float = pos_inf"
proof -
  have "\<not> is_nan pos_inf" using is_inf_pos_inf nan_not_inf by blast
  moreover have "\<not> is_nan neg_max_float" "\<not> is_inf neg_max_float"
    by (simp_all add: field_defs neg_max_float_def)
  ultimately show ?thesis by (simp add: Add_def f64_add_def is_inf_pos_inf)
qed

lemma Add_max_neg_max: "Add max_float neg_max_float = pos_zero"
proof -
  have f: "is_finite max_float" "is_finite neg_max_float"
    by (simp_all add: field_defs max_float_def neg_max_float_def)
  have s: "scaled max_float + scaled neg_max_float = 0"
    by (simp add: field_defs max_float_def neg_max_float_def)
  have "\<not> sign_bit max_float" by (simp add: sign_bit_def max_float_def)
  then show ?thesis using Add_finite_zero [OF f s] by simp
qed

lemma Add_max_zero: "Add max_float pos_zero = max_float"
proof -
  have f: "is_finite max_float" "is_finite pos_zero"
    by (simp_all add: field_defs max_float_def pos_zero_def)
  have s: "scaled max_float + scaled pos_zero = (2 ^ 53 - 1) * 2 ^ 2045"
    by (simp add: field_defs max_float_def pos_zero_def)
  have r: "round_mag ((2 ^ 53 - 1) * 2 ^ 2045) = 0x7FEFFFFFFFFFFFFF"
    by (simp add: round_mag_at [where k = 2045] Let_def)
  have "Add max_float pos_zero = of_nat (round_mag (nat (scaled max_float + scaled pos_zero)))"
    using f by (intro Add_finite_pos) (simp_all add: s)
  also have "\<dots> = of_nat (round_mag ((2 ^ 53 - 1) * 2 ^ 2045))"
    unfolding s by simp
  finally show ?thesis unfolding r by (simp add: max_float_def)
qed

text \<open>The additions of \<^verbatim>\<open>(0.1 + 0.2) + 0.3\<close> and \<^verbatim>\<open>0.1 + (0.2 + 0.3)\<close>.\<close>

lemma Add_tenth_fifth: "Add f64_tenth f64_fifth = 0x3FD3333333333334"
proof -
  have f: "is_finite f64_tenth" "is_finite f64_fifth"
    by (simp_all add: field_defs f64_tenth_def f64_fifth_def)
  have s: "scaled f64_tenth + scaled f64_fifth = 10808639105689191 * 2 ^ 1019"
    by (simp add: field_defs f64_tenth_def f64_fifth_def)
  have r: "round_mag (10808639105689191 * 2 ^ 1019) = 0x3FD3333333333334"
    by (simp add: round_mag_at [where k = 1020] Let_def)
  have "Add f64_tenth f64_fifth = of_nat (round_mag (nat (scaled f64_tenth + scaled f64_fifth)))"
    using f by (intro Add_finite_pos) (simp_all add: s)
  also have "\<dots> = of_nat (round_mag (10808639105689191 * 2 ^ 1019))"
    unfolding s by simp
  finally show ?thesis unfolding r by (simp add: f64_tenth_def f64_fifth_def)
qed

lemma Add_three_tenths_up: "Add 0x3FD3333333333334 f64_three_tenths = 0x3FE3333333333334"
proof -
  have f: "is_finite 0x3FD3333333333334" "is_finite f64_three_tenths"
    by (simp_all add: field_defs f64_three_tenths_def)
  have s: "scaled 0x3FD3333333333334 + scaled f64_three_tenths = 10808639105689191 * 2 ^ 1020"
    by (simp add: field_defs f64_three_tenths_def)
  have r: "round_mag (10808639105689191 * 2 ^ 1020) = 0x3FE3333333333334"
    by (simp add: round_mag_at [where k = 1021] Let_def)
  have "Add 0x3FD3333333333334 f64_three_tenths = of_nat (round_mag (nat (scaled 0x3FD3333333333334 + scaled f64_three_tenths)))"
    using f by (intro Add_finite_pos) (simp_all add: s)
  also have "\<dots> = of_nat (round_mag (10808639105689191 * 2 ^ 1020))"
    unfolding s by simp
  finally show ?thesis unfolding r by (simp add: f64_three_tenths_def)
qed

lemma Add_fifth_three_tenths: "Add f64_fifth f64_three_tenths = 0x3FE0000000000000"
proof -
  have f: "is_finite f64_fifth" "is_finite f64_three_tenths"
    by (simp_all add: field_defs f64_fifth_def f64_three_tenths_def)
  have s: "scaled f64_fifth + scaled f64_three_tenths = 2 ^ 1073"
    by (simp add: field_defs f64_fifth_def f64_three_tenths_def)
  have r: "round_mag (2 ^ 1073) = 0x3FE0000000000000"
    by (simp add: round_mag_at [where k = 1021] Let_def)
  have "Add f64_fifth f64_three_tenths = of_nat (round_mag (nat (scaled f64_fifth + scaled f64_three_tenths)))"
    using f by (intro Add_finite_pos) (simp_all add: s)
  also have "\<dots> = of_nat (round_mag (2 ^ 1073))"
    unfolding s by simp
  finally show ?thesis unfolding r by (simp add: f64_fifth_def f64_three_tenths_def)
qed

lemma Add_tenth_half: "Add f64_tenth 0x3FE0000000000000 = 0x3FE3333333333333"
proof -
  have f: "is_finite f64_tenth" "is_finite 0x3FE0000000000000"
    by (simp_all add: field_defs f64_tenth_def)
  have s: "scaled f64_tenth + scaled 0x3FE0000000000000 = 21617278211378381 * 2 ^ 1019"
    by (simp add: field_defs f64_tenth_def)
  have r: "round_mag (21617278211378381 * 2 ^ 1019) = 0x3FE3333333333333"
    by (simp add: round_mag_at [where k = 1021] Let_def)
  have "Add f64_tenth 0x3FE0000000000000 = of_nat (round_mag (nat (scaled f64_tenth + scaled 0x3FE0000000000000)))"
    using f by (intro Add_finite_pos) (simp_all add: s)
  also have "\<dots> = of_nat (round_mag (21617278211378381 * 2 ^ 1019))"
    unfolding s by simp
  finally show ?thesis unfolding r by (simp add: f64_tenth_def)
qed

text \<open>\<open>2 ^ 53 + 1\<close> lies halfway between two float64 values and goes to the even one.\<close>

lemma Add_2p53_one: "Add f64_2p53 f64_one = f64_2p53"
proof -
  have f: "is_finite f64_2p53" "is_finite f64_one"
    by (simp_all add: field_defs f64_2p53_def f64_one_def)
  have s: "scaled f64_2p53 + scaled f64_one = 9007199254740993 * 2 ^ 1074"
    by (simp add: field_defs f64_2p53_def f64_one_def)
  have r: "round_mag (9007199254740993 * 2 ^ 1074) = 0x4340000000000000"
    by (simp add: round_mag_at [where k = 1075] Let_def)
  have "Add f64_2p53 f64_one = of_nat (round_mag (nat (scaled f64_2p53 + scaled f64_one)))"
    using f by (intro Add_finite_pos) (simp_all add: s)
  also have "\<dots> = of_nat (round_mag (9007199254740993 * 2 ^ 1074))"
    unfolding s by simp
  finally show ?thesis unfolding r by (simp add: f64_2p53_def f64_one_def)
qed

section \<open>What the rounding returns\<close>

lemma bitlen_bounds: "0 < n \<Longrightarrow> 2 ^ (bitlen n - 1) \<le> n \<and> n < 2 ^ bitlen n"
proof (induction n rule: bitlen.induct)
  case (1 n)
  show ?case
  proof (cases "n div 2 = 0")
    case True
    then have "n = 1" using 1(2) by (simp add: div_eq_0_iff) 
    then show ?thesis by (simp add: bitlen_pos bitlen_0)
  next
    case False
    then have p: "0 < n div 2" by simp
    have ih: "2 ^ (bitlen (n div 2) - 1) \<le> n div 2 \<and> n div 2 < 2 ^ bitlen (n div 2)"
      using 1(1) 1(2) p by simp
    have bp: "0 < bitlen (n div 2)" using p by (simp add: bitlen_pos)
    have b: "bitlen n = Suc (bitlen (n div 2))" using 1(2) by (simp add: bitlen_pos)
    have "2 ^ (bitlen n - 1) = 2 * 2 ^ (bitlen (n div 2) - 1)"
      using bp by (simp add: b power_Suc [symmetric] del: power_Suc)
    also have "\<dots> \<le> 2 * (n div 2)" using ih by simp
    also have "\<dots> \<le> n" by simp
    finally have lo: "2 ^ (bitlen n - 1) \<le> n" .
    have "n < 2 * (n div 2) + 2" by presburger
    also have "\<dots> \<le> 2 * 2 ^ bitlen (n div 2)" using ih by simp
    finally have "n < 2 ^ bitlen n" by (simp add: b)
    with lo show ?thesis by simp
  qed
qed

lemma big_has_k:
  assumes "2 ^ 53 \<le> n"
  shows "0 < bitlen n - 53 \<and> 2 ^ (52 + (bitlen n - 53)) \<le> n \<and> n < 2 ^ (53 + (bitlen n - 53))"
proof -
  have n: "0 < n" using assms by (metis gr0I le_zero_eq power_not_zero zero_neq_numeral)
  have b: "2 ^ (bitlen n - 1) \<le> n" "n < 2 ^ bitlen n" using bitlen_bounds [OF n] by simp_all
  have g: "53 < bitlen n"
  proof (rule power_less_imp_less_exp)
    show "(1::nat) < 2" by simp
    show "(2::nat) ^ 53 < 2 ^ bitlen n" using assms b(2) by linarith
  qed
  then have e: "52 + (bitlen n - 53) = bitlen n - 1" "53 + (bitlen n - 53) = bitlen n"
    by simp_all
  show ?thesis unfolding e using b g by simp
qed

lemma expo_pattern: "expo x = pattern x div 2 ^ 52"
proof -
  have "unat x mod (2 ^ 52 * 2048) = 2 ^ 52 * (unat x div 2 ^ 52 mod 2048) + unat x mod 2 ^ 52"
    by (rule mod_mult2_eq)
  then have "pattern x = 2 ^ 52 * expo x + unat x mod 2 ^ 52"
    by (simp add: pattern_def expo_def)
  then show ?thesis by simp
qed

lemma frac_pattern: "frac x = pattern x mod 2 ^ 52"
proof -
  have "(2::nat) ^ 52 dvd 2 ^ 63" by (rule le_imp_power_dvd) simp
  then show ?thesis unfolding frac_def pattern_def by (simp only: mod_mod_cancel)
qed

lemma pattern_of_nat: "b < 2 ^ 63 \<Longrightarrow> pattern (of_nat b) = b"
  by (simp add: pattern_def unat_of_nat)

lemma pattern_of_nat_neg:
  assumes "b < 2 ^ 63" shows "pattern (of_nat (2 ^ 63 + b)) = b"
proof -
  have "unat (of_nat (2 ^ 63 + b) :: float64) = (2 ^ 63 + b) mod 2 ^ LENGTH(64)"
    by (rule unat_of_nat)
  also have "\<dots> = 2 ^ 63 + b" using assms by simp
  finally show ?thesis unfolding pattern_def using assms by simp
qed

lemma sign_of_nat: "b < 2 ^ 63 \<Longrightarrow> \<not> sign_bit (of_nat b)"
  by (simp add: sign_bit_def unat_of_nat)

lemma sign_of_nat_neg:
  assumes "b < 2 ^ 63" shows "sign_bit (of_nat (2 ^ 63 + b))"
proof -
  have "unat (of_nat (2 ^ 63 + b) :: float64) = (2 ^ 63 + b) mod 2 ^ LENGTH(64)"
    by (rule unat_of_nat)
  also have "\<dots> = 2 ^ 63 + b" using assms by simp
  finally show ?thesis unfolding sign_bit_def by simp
qed

text \<open>Patterns below \<open>2 ^ 53\<close> are worth themselves.\<close>

lemma magnitude_small:
  assumes "pattern z < 2 ^ 53"
  shows "is_finite z" "magnitude z = pattern z"
proof -
  define b where "b = pattern z"
  have b: "b < 2 ^ 53" using assms by (simp add: b_def)
  have e: "expo z = b div 2 ^ 52" "frac z = b mod 2 ^ 52"
    by (simp_all add: expo_pattern frac_pattern b_def)
  have d: "b div 2 ^ 52 < 2" using b by (simp add: less_mult_imp_div_less)
  show "is_finite z" using d by (simp add: is_finite_def e)
  show "magnitude z = pattern z"
  proof (cases "b div 2 ^ 52 = 0")
    case True
    then have "b < 2 ^ 52" by (simp add: div_eq_0_iff)
    then show ?thesis using True by (simp add: magnitude_def e b_def [symmetric])
  next
    case False
    then have o: "b div 2 ^ 52 = 1" using d by linarith
    have "b = 2 ^ 52 * (b div 2 ^ 52) + b mod 2 ^ 52" by simp
    then have "b = 2 ^ 52 + b mod 2 ^ 52" unfolding o by simp
    then show ?thesis using o by (simp add: magnitude_def e b_def [symmetric])
  qed
qed

text \<open>
  The pattern \<open>k * 2 ^ 52 + q\<close> with \<open>q\<close> of 53 bits is worth \<open>q * 2 ^ k\<close>, also when \<open>q\<close>
  has grown to \<open>2 ^ 53\<close> by a carry.
\<close>

lemma magnitude_big:
  assumes p: "pattern z = k * 2 ^ 52 + q" and k: "0 < k" and q: "2 ^ 52 \<le> q" "q \<le> 2 ^ 53"
    and fin: "k * 2 ^ 52 + q < 2047 * 2 ^ 52"
  shows "is_finite z" "magnitude z = q * 2 ^ k" "even (frac z) = even q"
proof -
  have e: "expo z = k + q div 2 ^ 52" unfolding expo_pattern p by simp
  have f: "frac z = q mod 2 ^ 52" unfolding frac_pattern p by simp
  have "(k + q div 2 ^ 52) * 2 ^ 52 \<le> k * 2 ^ 52 + q"
    by (simp add: algebra_simps)
  then have "(k + q div 2 ^ 52) * 2 ^ 52 < 2047 * 2 ^ 52" using fin by linarith
  then have el: "k + q div 2 ^ 52 < 2047" by simp
  show "is_finite z" using el by (simp add: is_finite_def e)
  have ev: "even ((2::nat) ^ 52)" by simp
  show "even (frac z) = even q"
    unfolding f using ev by (rule dvd_mod_iff)
  show "magnitude z = q * 2 ^ k"
  proof (cases "q = 2 ^ 53")
    case True
    have "expo z = k + 2" "frac z = 0" unfolding e f True by simp_all
    then show ?thesis using True k by (simp add: magnitude_def)
  next
    case False
    then have lt: "q < 2 ^ 53" using q(2) by simp
    have d: "q div 2 ^ 52 = 1"
    proof -
      have "q div 2 ^ 52 < 2" using lt by (simp add: less_mult_imp_div_less)
      moreover have "1 \<le> q div 2 ^ 52" using q(1) by (simp add: less_eq_div_iff_mult_less_eq)
      ultimately show ?thesis by linarith
    qed
    have "q = 2 ^ 52 * (q div 2 ^ 52) + q mod 2 ^ 52" by simp
    then have "q = 2 ^ 52 + q mod 2 ^ 52" unfolding d by simp
    then have "2 ^ 52 + frac z = q" by (simp add: f)
    moreover have "expo z = k + 1" unfolding e d ..
    ultimately show ?thesis by (simp add: magnitude_def)
  qed
qed

text \<open>No finite float64 lies strictly between two neighbours of 53 bits at scale \<open>k\<close>.\<close>

lemma magnitude_gap:
  assumes f: "is_finite f" and k: "0 < k" and q: "2 ^ 52 \<le> q"
  shows "magnitude f \<le> q * 2 ^ k \<or> (q + 1) * 2 ^ k \<le> magnitude f"
proof (cases "expo f = 0")
  case True
  have "frac f < 2 ^ 52" by (rule frac_lt)
  also have "\<dots> \<le> q" by (rule q)
  also have "\<dots> \<le> q * 2 ^ k" by simp
  finally show ?thesis using True by (simp add: magnitude_def)
next
  case False
  define p where "p = 2 ^ 52 + frac f"
  define j where "j = expo f - 1"
  have m: "magnitude f = p * 2 ^ j" using False by (simp add: magnitude_def p_def j_def)
  have p: "p < 2 ^ 53" using frac_lt [of f] by (simp add: p_def)
  show ?thesis
  proof (cases "j < k")
    case True
    then have "53 + j \<le> 52 + k" by simp
    then have "(2::nat) ^ (53 + j) \<le> 2 ^ (52 + k)" by (intro power_increasing) simp_all
    then have "(2::nat) ^ 53 * 2 ^ j \<le> 2 ^ 52 * 2 ^ k" by (simp only: power_add)
    moreover have "p * 2 ^ j \<le> 2 ^ 53 * 2 ^ j" using p by (intro mult_le_mono1) simp
    moreover have "(2::nat) ^ 52 * 2 ^ k \<le> q * 2 ^ k" using q by (intro mult_le_mono1)
    ultimately have "p * 2 ^ j \<le> q * 2 ^ k" by linarith
    then show ?thesis by (simp add: m)
  next
    case False
    then have "j = (j - k) + k" by simp
    then have "(2::nat) ^ j = 2 ^ (j - k) * 2 ^ k" by (metis power_add)
    then have mt: "magnitude f = (p * 2 ^ (j - k)) * 2 ^ k" by (simp add: m)
    show ?thesis
    proof (cases "p * 2 ^ (j - k) \<le> q")
      case True
      then have "(p * 2 ^ (j - k)) * 2 ^ k \<le> q * 2 ^ k" by (intro mult_le_mono1)
      then show ?thesis unfolding mt by simp
    next
      case False
      then have "q + 1 \<le> p * 2 ^ (j - k)" by simp
      then have "(q + 1) * 2 ^ k \<le> (p * 2 ^ (j - k)) * 2 ^ k" by (intro mult_le_mono1)
      then show ?thesis unfolding mt by simp
    qed
  qed
qed

text \<open>
  The choice between the two neighbours \<open>lo\<close> and \<open>lo + 2 * h\<close> of \<open>lo + r\<close>, on the
  integers: no number outside the gap is nearer than the chosen neighbour, and a number
  as near as it, other than it, exists only at a tie.
\<close>

lemma nearest_choice:
  fixes lo r h t :: int
  assumes r: "0 \<le> r" "r < 2 * h" and t: "t \<le> lo \<or> lo + 2 * h \<le> t"
  shows "\<not> (h < r \<or> (r = h \<and> c)) \<Longrightarrow> \<bar>lo - (lo + r)\<bar> \<le> \<bar>t - (lo + r)\<bar>"
    and "\<not> (h < r \<or> (r = h \<and> c)) \<Longrightarrow> \<bar>t - (lo + r)\<bar> = \<bar>lo - (lo + r)\<bar> \<Longrightarrow> t \<noteq> lo \<Longrightarrow> \<not> c"
    and "h < r \<or> (r = h \<and> c) \<Longrightarrow> \<bar>(lo + 2 * h) - (lo + r)\<bar> \<le> \<bar>t - (lo + r)\<bar>"
    and "h < r \<or> (r = h \<and> c) \<Longrightarrow> \<bar>t - (lo + r)\<bar> = \<bar>(lo + 2 * h) - (lo + r)\<bar> \<Longrightarrow> t \<noteq> lo + 2 * h \<Longrightarrow> c"
  using r t by (auto simp: abs_if split: if_splits)

lemma round_mag_big:
  assumes n: "2 ^ 53 \<le> n"
  obtains k q r where "0 < k" "2 ^ 52 \<le> q" "q < 2 ^ 53" "r < 2 ^ k" "n = q * 2 ^ k + r"
    "round_mag n =
       (if 2047 * 2 ^ 52 \<le> k * 2 ^ 52 + (if 2 ^ (k - 1) < r \<or> (r = 2 ^ (k - 1) \<and> odd q) then q + 1 else q)
        then 2047 * 2 ^ 52
        else k * 2 ^ 52 + (if 2 ^ (k - 1) < r \<or> (r = 2 ^ (k - 1) \<and> odd q) then q + 1 else q))"
proof -
  define k where "k = bitlen n - 53"
  define q where "q = n div 2 ^ k"
  define r where "r = n mod 2 ^ k"
  have k: "0 < k" "2 ^ (52 + k) \<le> n" "n < 2 ^ (53 + k)"
    using big_has_k [OF n] unfolding k_def by blast+
  have "2 ^ 52 * 2 ^ k \<le> n" using k(2) by (simp only: power_add)
  then have q1: "2 ^ 52 \<le> q" unfolding q_def by (simp add: less_eq_div_iff_mult_less_eq)
  have "n < 2 ^ 53 * 2 ^ k" using k(3) by (simp only: power_add)
  then have q2: "q < 2 ^ 53" unfolding q_def by (simp add: less_mult_imp_div_less)
  have r: "r < 2 ^ k" unfolding r_def by simp
  have d: "n = q * 2 ^ k + r" unfolding q_def r_def by (rule div_mult_mod_eq [symmetric])
  have "round_mag n =
       (if 2047 * 2 ^ 52 \<le> k * 2 ^ 52 + (if 2 ^ (k - 1) < r \<or> (r = 2 ^ (k - 1) \<and> odd q) then q + 1 else q)
        then 2047 * 2 ^ 52
        else k * 2 ^ 52 + (if 2 ^ (k - 1) < r \<or> (r = 2 ^ (k - 1) \<and> odd q) then q + 1 else q))"
    unfolding round_mag_at [OF k(2,3,1)] Let_def q_def r_def ..
  with k(1) q1 q2 r d show thesis by (rule that)
qed

lemma overflow_link:
  assumes k: "0 < k" and q: "2 ^ 52 \<le> q" "q < 2 ^ 53" and r: "r < 2 ^ k"
  defines "q' \<equiv> (if 2 ^ (k - 1) < r \<or> (r = 2 ^ (k - 1) \<and> odd q) then q + 1 else q)"
  shows "(2047 * 2 ^ 52 \<le> k * 2 ^ 52 + q') = (overflow_threshold \<le> q * 2 ^ k + r)"
proof -
  define P :: nat where "P = 2 ^ 2044"
  have P45: "(2::nat) ^ 2045 = 2 * P" unfolding P_def by simp
  have T: "overflow_threshold = (2 ^ 54 - 1) * P"
    unfolding overflow_threshold_def P45 P_def [symmetric] by simp
  have q': "q \<le> q'" "q' \<le> q + 1" by (simp_all add: q'_def)
  have n_lt: "q * 2 ^ k + r < (q + 1) * 2 ^ k" using r by simp
  consider "k \<le> 2044" | "k = 2045" | "2046 \<le> k" by linarith
  then show ?thesis
  proof cases
    case 1
    have "k * 2 ^ 52 \<le> 2044 * (2::nat) ^ 52" using 1 by (intro mult_le_mono1)
    then have l: "\<not> 2047 * 2 ^ 52 \<le> k * 2 ^ 52 + q'" using q' q(2) by simp
    have "(2::nat) ^ k \<le> 2 ^ 2044" using 1 by (intro power_increasing) simp_all
    then have "(2::nat) ^ k \<le> P" by (simp only: P_def)
    then have "2 ^ 53 * (2::nat) ^ k \<le> 2 ^ 53 * P" by (intro mult_le_mono2)
    moreover have "(q + 1) * 2 ^ k \<le> 2 ^ 53 * 2 ^ k" using q(2) by (intro mult_le_mono1) simp
    ultimately have "q * 2 ^ k + r < 2 ^ 53 * P" using n_lt by linarith
    then have "\<not> overflow_threshold \<le> q * 2 ^ k + r" unfolding T by simp
    with l show ?thesis by simp
  next
    case 3
    have "2046 * (2::nat) ^ 52 \<le> k * 2 ^ 52" using 3 by (intro mult_le_mono1)
    then have l: "2047 * 2 ^ 52 \<le> k * 2 ^ 52 + q'" using q' q(1) by simp
    have "(2::nat) ^ 2046 \<le> 2 ^ k" using 3 by (intro power_increasing) simp_all
    moreover have "(2::nat) ^ 2046 = 4 * P" unfolding P_def by simp
    ultimately have "4 * P \<le> 2 ^ k" by simp
    then have a: "2 ^ 52 * (4 * P) \<le> 2 ^ 52 * (2::nat) ^ k" by (intro mult_le_mono2)
    have b: "2 ^ 52 * (2::nat) ^ k \<le> q * 2 ^ k" using q(1) by (intro mult_le_mono1)
    have c: "2 ^ 54 * P = 2 ^ 52 * (4 * P)" by simp
    have "2 ^ 54 * P \<le> q * 2 ^ k" unfolding c using a b by (rule order_trans)
    then have "2 ^ 54 * P \<le> q * 2 ^ k + r" by (rule trans_le_add1)
    then have "overflow_threshold \<le> q * 2 ^ k + r" unfolding T by simp
    with l show ?thesis by simp
  next
    case 2
    have k2: "(2::nat) ^ k = 2 * P" unfolding 2 by (rule P45)
    have k1: "(2::nat) ^ (k - 1) = P" unfolding 2 P_def by simp
    show ?thesis
    proof (cases "q = 2 ^ 53 - 1")
      case True
      have o: "odd q" unfolding True by simp
      have "q' = (if P \<le> r then q + 1 else q)" unfolding q'_def k1 using o by auto
      then have l: "(2047 * 2 ^ 52 \<le> k * 2 ^ 52 + q') = (P \<le> r)" unfolding 2 True by simp
      have "(overflow_threshold \<le> q * 2 ^ k + r) = (P \<le> r)" unfolding T k2 True by simp
      with l show ?thesis by simp
    next
      case False
      then have ql: "q + 1 \<le> 2 ^ 53 - 1" using q(2) by simp
      then have l: "\<not> 2047 * 2 ^ 52 \<le> k * 2 ^ 52 + q'" unfolding 2 using q'(2) by simp
      have "(q + 1) * (2 * P) \<le> (2 ^ 53 - 1) * (2 * P)" using ql by (intro mult_le_mono1)
      then have "q * 2 ^ k + r < (2 ^ 53 - 1) * (2 * P)" using n_lt unfolding k2 by linarith
      then have "\<not> overflow_threshold \<le> q * 2 ^ k + r" unfolding T by simp
      with l show ?thesis by simp
    qed
  qed
qed

lemma threshold_big: "2 ^ 53 \<le> overflow_threshold"
  by (simp add: overflow_threshold_def)

lemma is_inf_pattern: "pattern z = 2047 * 2 ^ 52 \<Longrightarrow> is_inf z"
  by (simp add: is_inf_def expo_pattern frac_pattern)

text \<open>
  What \<open>round_mag\<close> returns: the infinity from the overflow threshold on; below it, a
  finite float64 that no finite float64 beats in distance to \<open>n\<close>, with an even fraction
  when another one is as near.
\<close>

lemma round_mag_correct:
  assumes n: "0 < n" and z: "pattern z = round_mag n"
  shows "overflow_threshold \<le> n \<Longrightarrow> is_inf z"
    and "n < overflow_threshold \<Longrightarrow> is_finite z \<and> 0 < magnitude z"
    and "n < overflow_threshold \<Longrightarrow> is_finite f \<Longrightarrow> \<bar>t\<bar> = int (magnitude f) \<Longrightarrow>
           \<bar>int (magnitude z) - int n\<bar> \<le> \<bar>t - int n\<bar>"
    and "n < overflow_threshold \<Longrightarrow> is_finite f \<Longrightarrow> \<bar>t\<bar> = int (magnitude f) \<Longrightarrow>
           t \<noteq> int (magnitude z) \<Longrightarrow> \<bar>t - int n\<bar> = \<bar>int (magnitude z) - int n\<bar> \<Longrightarrow> even (frac z)"
proof -
  have "(overflow_threshold \<le> n \<longrightarrow> is_inf z) \<and>
        (n < overflow_threshold \<longrightarrow> is_finite z \<and> 0 < magnitude z \<and>
          (\<forall>f t. is_finite f \<and> \<bar>t\<bar> = int (magnitude f) \<longrightarrow>
             \<bar>int (magnitude z) - int n\<bar> \<le> \<bar>t - int n\<bar> \<and>
             (t \<noteq> int (magnitude z) \<and> \<bar>t - int n\<bar> = \<bar>int (magnitude z) - int n\<bar> \<longrightarrow> even (frac z))))"
  proof (cases "n < 2 ^ 53")
    case True
    then have "round_mag n = n" by (simp add: round_mag_def)
    then have p: "pattern z < 2 ^ 53" "pattern z = n" using True z by simp_all
    have m: "is_finite z" "magnitude z = n" using magnitude_small [OF p(1)] p(2) by simp_all
    have "n < overflow_threshold" using True threshold_big by linarith
    then show ?thesis using m n by auto
  next
    case False
    then have "2 ^ 53 \<le> n" by simp
    then obtain k q r where k: "0 < k" and q: "2 ^ 52 \<le> q" "q < 2 ^ 53" and r: "r < 2 ^ k"
      and d: "n = q * 2 ^ k + r"
      and rm: "round_mag n =
       (if 2047 * 2 ^ 52 \<le> k * 2 ^ 52 + (if 2 ^ (k - 1) < r \<or> (r = 2 ^ (k - 1) \<and> odd q) then q + 1 else q)
        then 2047 * 2 ^ 52
        else k * 2 ^ 52 + (if 2 ^ (k - 1) < r \<or> (r = 2 ^ (k - 1) \<and> odd q) then q + 1 else q))"
      by (rule round_mag_big)
    define up where "up = (2 ^ (k - 1) < r \<or> (r = 2 ^ (k - 1) \<and> odd q))"
    define q' where "q' = (if up then q + 1 else q)"
    have rm': "round_mag n = (if 2047 * 2 ^ 52 \<le> k * 2 ^ 52 + q' then 2047 * 2 ^ 52 else k * 2 ^ 52 + q')"
      unfolding rm q'_def up_def ..
    have ov: "(2047 * 2 ^ 52 \<le> k * 2 ^ 52 + q') = (overflow_threshold \<le> n)"
      unfolding q'_def up_def d using k q r by (rule overflow_link)
    show ?thesis
    proof (cases "overflow_threshold \<le> n")
      case True
      then have "pattern z = 2047 * 2 ^ 52" using z rm' ov by simp
      then have "is_inf z" by (rule is_inf_pattern)
      then show ?thesis using True by simp
    next
      case False
      then have b: "k * 2 ^ 52 + q' < 2047 * 2 ^ 52" using ov by simp
      then have pz: "pattern z = k * 2 ^ 52 + q'" using z rm' by simp
      have q'b: "2 ^ 52 \<le> q'" "q' \<le> 2 ^ 53" using q by (simp_all add: q'_def)
      have fz: "is_finite z" and mz: "magnitude z = q' * 2 ^ k" and ez: "even (frac z) = even q'"
        using magnitude_big [OF pz k q'b b] by simp_all
      have pos: "0 < magnitude z" unfolding mz using q'b(1) by simp
      define lo h ri :: int where "lo = int (q * 2 ^ k)" and "h = int (2 ^ (k - 1))" and "ri = int r"
      have hh: "2 * h = int (2 ^ k)" unfolding h_def using k by (cases k) simp_all
      have ni: "int n = lo + ri" unfolding d lo_def ri_def by simp
      have ri: "0 \<le> ri" "ri < 2 * h" unfolding hh ri_def using r by simp_all
      have upi: "up = (h < ri \<or> (ri = h \<and> odd q))" unfolding up_def h_def ri_def
        by (simp only: of_nat_less_iff of_nat_eq_iff)
      have mzi: "int (magnitude z) = (if up then lo + 2 * h else lo)"
        unfolding mz q'_def hh lo_def by (simp add: algebra_simps)
      have main: "\<bar>int (magnitude z) - int n\<bar> \<le> \<bar>t - int n\<bar> \<and>
             (t \<noteq> int (magnitude z) \<and> \<bar>t - int n\<bar> = \<bar>int (magnitude z) - int n\<bar> \<longrightarrow> even (frac z))"
        if f: "is_finite f" and t: "\<bar>t\<bar> = int (magnitude f)" for f t
      proof -
        have g: "magnitude f \<le> q * 2 ^ k \<or> (q + 1) * 2 ^ k \<le> magnitude f"
          using f k q(1) by (rule magnitude_gap)
        have hi: "lo + 2 * h = int ((q + 1) * 2 ^ k)" unfolding lo_def hh by (simp add: algebra_simps)
        have lo0: "0 \<le> lo" unfolding lo_def by simp
        have tg: "t \<le> lo \<or> lo + 2 * h \<le> t"
        proof (cases "magnitude f \<le> q * 2 ^ k")
          case True
          then have "int (magnitude f) \<le> lo" unfolding lo_def by (simp only: of_nat_le_iff)
          then show ?thesis using t by linarith
        next
          case False
          then have "(q + 1) * 2 ^ k \<le> magnitude f" using g by simp
          then have "lo + 2 * h \<le> int (magnitude f)" unfolding hi by (simp only: of_nat_le_iff)
          then show ?thesis using t lo0 by linarith
        qed
        show ?thesis
        proof (cases up)
          case True
          then have c: "h < ri \<or> (ri = h \<and> odd q)" using upi by simp
          have m: "int (magnitude z) = lo + 2 * h" using True mzi by simp
          have "even q'" if "odd q" using that True by (simp add: q'_def)
          then show ?thesis unfolding m ni ez
            using nearest_choice(3) [OF ri tg c] nearest_choice(4) [OF ri tg c] by blast
        next
          case False
          then have c: "\<not> (h < ri \<or> (ri = h \<and> odd q))" using upi by simp
          have m: "int (magnitude z) = lo" using False mzi by simp
          have "q' = q" using False by (simp add: q'_def)
          then show ?thesis unfolding m ni ez
            using nearest_choice(1) [OF ri tg c] nearest_choice(2) [OF ri tg c] by auto
        qed
      qed
      show ?thesis using False fz pos main by auto
    qed
  qed
  then show "overflow_threshold \<le> n \<Longrightarrow> is_inf z"
    and "n < overflow_threshold \<Longrightarrow> is_finite z \<and> 0 < magnitude z"
    and "n < overflow_threshold \<Longrightarrow> is_finite f \<Longrightarrow> \<bar>t\<bar> = int (magnitude f) \<Longrightarrow>
           \<bar>int (magnitude z) - int n\<bar> \<le> \<bar>t - int n\<bar>"
    and "n < overflow_threshold \<Longrightarrow> is_finite f \<Longrightarrow> \<bar>t\<bar> = int (magnitude f) \<Longrightarrow>
           t \<noteq> int (magnitude z) \<Longrightarrow> \<bar>t - int n\<bar> = \<bar>int (magnitude z) - int n\<bar> \<Longrightarrow> even (frac z)"
    by blast+
qed

lemma round_mag_lt: "round_mag n < 2 ^ 63"
proof (cases "n < 2 ^ 53")
  case True
  then show ?thesis by (simp add: round_mag_def)
next
  case False
  then show ?thesis by (simp add: round_mag_def Let_def)
qed

text \<open>Below the overflow threshold: what the rounded pattern is worth.\<close>

lemma round_mag_cases:
  assumes n: "n < overflow_threshold" and z: "pattern z = round_mag n"
  obtains (small) "n < 2 ^ 53" "is_finite z" "magnitude z = n"
  | (big) k q r where "0 < k" "2 ^ 52 \<le> q" "q < 2 ^ 53" "r < 2 ^ k" "n = q * 2 ^ k + r"
      "is_finite z"
      "magnitude z = (if 2 ^ (k - 1) < r \<or> (r = 2 ^ (k - 1) \<and> odd q) then q + 1 else q) * 2 ^ k"
proof (cases "n < 2 ^ 53")
  case True
  then have "round_mag n = n" by (simp add: round_mag_def)
  then have p: "pattern z < 2 ^ 53" "pattern z = n" using True z by simp_all
  have "is_finite z" "magnitude z = n" using magnitude_small [OF p(1)] p(2) by simp_all
  with True show thesis by (rule small)
next
  case False
  then have "2 ^ 53 \<le> n" by simp
  then obtain k q r where k: "0 < k" and q: "2 ^ 52 \<le> q" "q < 2 ^ 53" and r: "r < 2 ^ k"
    and d: "n = q * 2 ^ k + r"
    and rm: "round_mag n =
     (if 2047 * 2 ^ 52 \<le> k * 2 ^ 52 + (if 2 ^ (k - 1) < r \<or> (r = 2 ^ (k - 1) \<and> odd q) then q + 1 else q)
      then 2047 * 2 ^ 52
      else k * 2 ^ 52 + (if 2 ^ (k - 1) < r \<or> (r = 2 ^ (k - 1) \<and> odd q) then q + 1 else q))"
    by (rule round_mag_big)
  define q' where "q' = (if 2 ^ (k - 1) < r \<or> (r = 2 ^ (k - 1) \<and> odd q) then q + 1 else q)"
  have rm': "round_mag n = (if 2047 * 2 ^ 52 \<le> k * 2 ^ 52 + q' then 2047 * 2 ^ 52 else k * 2 ^ 52 + q')"
    unfolding rm q'_def ..
  have ov: "(2047 * 2 ^ 52 \<le> k * 2 ^ 52 + q') = (overflow_threshold \<le> n)"
    unfolding q'_def d using k q r by (rule overflow_link)
  have b: "k * 2 ^ 52 + q' < 2047 * 2 ^ 52" using ov n by simp
  then have pz: "pattern z = k * 2 ^ 52 + q'" using z rm' by simp
  have q'b: "2 ^ 52 \<le> q'" "q' \<le> 2 ^ 53" using q by (simp_all add: q'_def)
  have fz: "is_finite z" and mz: "magnitude z = q' * 2 ^ k"
    using magnitude_big [OF pz k q'b b] by simp_all
  show thesis using k q r d fz mz [unfolded q'_def] by (rule big)
qed

text \<open>The rounding error is at most one part in \<open>2 ^ 53\<close> of the number rounded.\<close>

lemma round_mag_error:
  assumes n: "n < overflow_threshold" and z: "pattern z = round_mag n"
  shows "2 ^ 53 * \<bar>int (magnitude z) - int n\<bar> \<le> int n"
  using n z
proof (cases rule: round_mag_cases)
  case small
  then show ?thesis by simp
next
  case (big k q r)
  define H :: nat where "H = 2 ^ (k - 1)"
  have k2: "(2::nat) ^ k = 2 * H" unfolding H_def using big(1) by (cases k) simp_all
  have r: "r < 2 * H" using big(4) unfolding k2 .
  have nn: "n = q * (2 * H) + r" using big(5) unfolding k2 .
  have "2 ^ 52 * (2 * H) \<le> q * (2 * H)" using big(2) by (intro mult_le_mono1)
  then have lo: "2 ^ 53 * H \<le> q * (2 * H)" by simp
  show ?thesis
  proof (cases "H < r \<or> (r = H \<and> odd q)")
    case True
    then have m: "magnitude z = q * (2 * H) + 2 * H"
      using big(7) unfolding k2 H_def [symmetric] by (simp add: algebra_simps)
    have "H \<le> r" using True by auto
    then have "\<bar>int (magnitude z) - int n\<bar> \<le> int H" unfolding m nn using r by simp
    then have "2 ^ 53 * \<bar>int (magnitude z) - int n\<bar> \<le> 2 ^ 53 * int H" by simp
    also have "\<dots> = int (2 ^ 53 * H)" by simp
    also have "\<dots> \<le> int n" unfolding nn of_nat_le_iff using lo by (rule trans_le_add1)
    finally show ?thesis .
  next
    case False
    then have m: "magnitude z = q * (2 * H)"
      using big(7) unfolding k2 H_def [symmetric] by auto
    have "r \<le> H" using False by auto
    then have "\<bar>int (magnitude z) - int n\<bar> \<le> int H" unfolding m nn by simp
    then have "2 ^ 53 * \<bar>int (magnitude z) - int n\<bar> \<le> 2 ^ 53 * int H" by simp
    also have "\<dots> = int (2 ^ 53 * H)" by simp
    also have "\<dots> \<le> int n" unfolding nn of_nat_le_iff using lo by (rule trans_le_add1)
    finally show ?thesis .
  qed
qed

text \<open>A multiple of \<open>2 ^ e\<close> below \<open>2 ^ (53 + e)\<close> is a float64 and is not rounded.\<close>

lemma round_mag_exact:
  assumes n: "n < overflow_threshold" and z: "pattern z = round_mag n"
    and e: "2 ^ e dvd n" "n < 2 ^ (53 + e)"
  shows "magnitude z = n"
  using n z
proof (cases rule: round_mag_cases)
  case small
  then show ?thesis by simp
next
  case (big k q r)
  have "2 ^ 52 * 2 ^ k \<le> q * (2::nat) ^ k" using big(2) by (intro mult_le_mono1)
  then have "2 ^ 52 * 2 ^ k \<le> q * (2::nat) ^ k + r" by (rule trans_le_add1)
  then have "(2::nat) ^ (52 + k) \<le> n" unfolding big(5) power_add .
  then have "(2::nat) ^ (52 + k) < 2 ^ (53 + e)" using e(2) by linarith
  then have "52 + k < 53 + e" by (rule power_less_imp_less_exp [rotated]) simp
  then have "k \<le> e" by simp
  then have "(2::nat) ^ k dvd 2 ^ e" by (rule le_imp_power_dvd)
  then have "2 ^ k dvd n" using e(1) by (rule dvd_trans)
  then have "2 ^ k dvd r" unfolding big(5) by (simp add: dvd_add_right_iff)
  then have r0: "r = 0" using big(4) by (auto dest: dvd_imp_le)
  have "(0::nat) < 2 ^ (k - 1)" by simp
  then have "\<not> (2 ^ (k - 1) < r \<or> (r = 2 ^ (k - 1) \<and> odd q))" unfolding r0 by simp
  then have "magnitude z = q * 2 ^ k" using big(7) by simp
  then show ?thesis unfolding big(5) r0 by simp
qed

subsection \<open>From the pattern to the value of \<open>Add\<close>\<close>

lemma abs_scaled: "\<bar>scaled z\<bar> = int (magnitude z)"
  by (simp add: scaled_def)

lemma Add_finite_pattern:
  assumes f: "is_finite x" "is_finite y" and s: "scaled x + scaled y \<noteq> 0"
  shows "pattern (Add x y) = round_mag (nat \<bar>scaled x + scaled y\<bar>)"
    and "sign_bit (Add x y) = (scaled x + scaled y < 0)"
proof -
  have "pattern (Add x y) = round_mag (nat \<bar>scaled x + scaled y\<bar>) \<and>
        sign_bit (Add x y) = (scaled x + scaled y < 0)"
  proof (cases "0 < scaled x + scaled y")
    case True
    have a: "Add x y = of_nat (round_mag (nat (scaled x + scaled y)))"
      using f True by (rule Add_finite_pos)
    have n: "nat \<bar>scaled x + scaled y\<bar> = nat (scaled x + scaled y)" using True by simp
    show ?thesis unfolding a n
      using True pattern_of_nat [OF round_mag_lt] sign_of_nat [OF round_mag_lt] by simp
  next
    case False
    then have neg: "scaled x + scaled y < 0" using s by simp
    have a: "Add x y = of_nat (2 ^ 63 + round_mag (nat (- (scaled x + scaled y))))"
      using f neg by (rule Add_finite_neg)
    have n: "nat \<bar>scaled x + scaled y\<bar> = nat (- (scaled x + scaled y))" using neg by simp
    show ?thesis unfolding a n
      using neg pattern_of_nat_neg [OF round_mag_lt] sign_of_nat_neg [OF round_mag_lt] by simp
  qed
  then show "pattern (Add x y) = round_mag (nat \<bar>scaled x + scaled y\<bar>)"
    and "sign_bit (Add x y) = (scaled x + scaled y < 0)" by simp_all
qed

lemma scaled_zeros: "scaled pos_zero = 0" "scaled neg_zero = 0"
  "is_finite pos_zero" "is_finite neg_zero"
  by (simp_all add: field_defs pos_zero_def neg_zero_def)

lemma Add_finite_operands: "is_finite (Add x y) \<Longrightarrow> is_finite x \<and> is_finite y"
  using finite_or_inf_or_nan [of x] finite_or_inf_or_nan [of y]
    finite_not_nan_inf [of "Add x y"] is_nan_quiet_nan
  by (auto simp: Add_def f64_add_def split: if_splits)

text \<open>An unrounded sum at or above the threshold overflows; one below it does not.\<close>

lemma Add_overflow:
  assumes f: "is_finite x" "is_finite y"
    and o: "int overflow_threshold \<le> \<bar>scaled x + scaled y\<bar>"
  shows "is_inf (Add x y)" "sign_bit (Add x y) = (scaled x + scaled y < 0)"
proof -
  have "0 < overflow_threshold" using threshold_big by simp
  then have s: "scaled x + scaled y \<noteq> 0" using o by auto
  have p: "pattern (Add x y) = round_mag (nat \<bar>scaled x + scaled y\<bar>)"
    using f s by (rule Add_finite_pattern)
  have n: "0 < nat \<bar>scaled x + scaled y\<bar>" using s by simp
  have "overflow_threshold \<le> nat \<bar>scaled x + scaled y\<bar>" using o by simp
  then show "is_inf (Add x y)" by (rule round_mag_correct(1) [OF n p])
  show "sign_bit (Add x y) = (scaled x + scaled y < 0)" using f s by (rule Add_finite_pattern)
qed

lemma Add_finite_result:
  assumes "is_finite (Add x y)"
  shows "\<bar>scaled x + scaled y\<bar> < int overflow_threshold"
proof (rule ccontr)
  assume "\<not> \<bar>scaled x + scaled y\<bar> < int overflow_threshold"
  then have "int overflow_threshold \<le> \<bar>scaled x + scaled y\<bar>" by simp
  moreover have "is_finite x" "is_finite y" using Add_finite_operands [OF assms] by simp_all
  ultimately have "is_inf (Add x y)" using Add_overflow(1) by blast
  then show False using finite_not_nan_inf [OF assms] by simp
qed

text \<open>
  The value of a sum that does not overflow, through the magnitude of the rounded
  pattern.
\<close>

lemma Add_finite_value:
  assumes f: "is_finite x" "is_finite y"
    and s: "scaled x + scaled y \<noteq> 0"
    and b: "\<bar>scaled x + scaled y\<bar> < int overflow_threshold"
  shows "is_finite (Add x y)"
    and "scaled (Add x y) = (if scaled x + scaled y < 0 then - int (magnitude (Add x y)) else int (magnitude (Add x y)))"
    and "0 < magnitude (Add x y)"
proof -
  have p: "pattern (Add x y) = round_mag (nat \<bar>scaled x + scaled y\<bar>)"
    and g: "sign_bit (Add x y) = (scaled x + scaled y < 0)"
    using f s by (rule Add_finite_pattern)+
  have n: "0 < nat \<bar>scaled x + scaled y\<bar>" using s by simp
  have l: "nat \<bar>scaled x + scaled y\<bar> < overflow_threshold" using b by simp
  show "is_finite (Add x y)" "0 < magnitude (Add x y)"
    using round_mag_correct(2) [OF n p l] by simp_all
  show "scaled (Add x y) = (if scaled x + scaled y < 0 then - int (magnitude (Add x y)) else int (magnitude (Add x y)))"
    by (simp add: scaled_def g)
qed

lemma Add_nearest:
  assumes f: "is_finite x" "is_finite y"
    and b: "\<bar>scaled x + scaled y\<bar> < int overflow_threshold"
    and c: "is_finite c"
  shows "\<bar>scaled (Add x y) - (scaled x + scaled y)\<bar> \<le> \<bar>scaled c - (scaled x + scaled y)\<bar>"
    and "scaled c \<noteq> scaled (Add x y) \<Longrightarrow>
         \<bar>scaled c - (scaled x + scaled y)\<bar> = \<bar>scaled (Add x y) - (scaled x + scaled y)\<bar> \<Longrightarrow>
         even (frac (Add x y))"
proof -
  define s where "s = scaled x + scaled y"
  have "\<bar>scaled (Add x y) - s\<bar> \<le> \<bar>scaled c - s\<bar> \<and>
        (scaled c \<noteq> scaled (Add x y) \<and> \<bar>scaled c - s\<bar> = \<bar>scaled (Add x y) - s\<bar> \<longrightarrow>
         even (frac (Add x y)))"
  proof (cases "s = 0")
    case True
    have "Add x y = (if sign_bit x \<and> sign_bit y then neg_zero else pos_zero)"
      using f True unfolding s_def by (rule Add_finite_zero)
    then have "scaled (Add x y) = 0" by (simp add: scaled_zeros)
    then show ?thesis using True by auto
  next
    case False
    define n where "n = nat \<bar>s\<bar>"
    have p: "pattern (Add x y) = round_mag n"
      unfolding n_def s_def using f False [unfolded s_def] by (rule Add_finite_pattern)
    have n: "0 < n" using False by (simp add: n_def)
    have l: "n < overflow_threshold" using b by (simp add: n_def s_def)
    have v: "scaled (Add x y) = (if s < 0 then - int (magnitude (Add x y)) else int (magnitude (Add x y)))"
      unfolding s_def using f False [unfolded s_def] b by (rule Add_finite_value)
    show ?thesis
    proof (cases "s < 0")
      case True
      then have si: "s = - int n" by (simp add: n_def)
      have t: "\<bar>- scaled c\<bar> = int (magnitude c)" by (simp add: abs_scaled)
      have 1: "\<bar>int (magnitude (Add x y)) - int n\<bar> \<le> \<bar>- scaled c - int n\<bar>"
        using n p l c t by (rule round_mag_correct(3))
      have 2: "- scaled c \<noteq> int (magnitude (Add x y)) \<Longrightarrow>
               \<bar>- scaled c - int n\<bar> = \<bar>int (magnitude (Add x y)) - int n\<bar> \<Longrightarrow> even (frac (Add x y))"
        using n p l c t by (rule round_mag_correct(4))
      have m: "scaled (Add x y) = - int (magnitude (Add x y))" using v True by simp
      show ?thesis unfolding m si using 1 2 by (auto simp: abs_if split: if_splits)
    next
      case False
      then have si: "s = int n" using \<open>s \<noteq> 0\<close> by (simp add: n_def)
      have t: "\<bar>scaled c\<bar> = int (magnitude c)" by (simp add: abs_scaled)
      have 1: "\<bar>int (magnitude (Add x y)) - int n\<bar> \<le> \<bar>scaled c - int n\<bar>"
        using n p l c t by (rule round_mag_correct(3))
      have 2: "scaled c \<noteq> int (magnitude (Add x y)) \<Longrightarrow>
               \<bar>scaled c - int n\<bar> = \<bar>int (magnitude (Add x y)) - int n\<bar> \<Longrightarrow> even (frac (Add x y))"
        using n p l c t by (rule round_mag_correct(4))
      have m: "scaled (Add x y) = int (magnitude (Add x y))" using v False by simp
      show ?thesis unfolding m si using 1 2 by auto
    qed
  qed
  then show "\<bar>scaled (Add x y) - (scaled x + scaled y)\<bar> \<le> \<bar>scaled c - (scaled x + scaled y)\<bar>"
    and "scaled c \<noteq> scaled (Add x y) \<Longrightarrow>
         \<bar>scaled c - (scaled x + scaled y)\<bar> = \<bar>scaled (Add x y) - (scaled x + scaled y)\<bar> \<Longrightarrow>
         even (frac (Add x y))"
    unfolding s_def by blast+
qed

text \<open>One addition with a finite result is off by at most one part in \<open>2 ^ 53\<close>.\<close>

lemma Add_error:
  assumes r: "is_finite (Add x y)"
  shows "2 ^ 53 * \<bar>scaled (Add x y) - (scaled x + scaled y)\<bar> \<le> \<bar>scaled x + scaled y\<bar>"
proof -
  define s where "s = scaled x + scaled y"
  have f: "is_finite x" "is_finite y" using Add_finite_operands [OF r] by simp_all
  have b: "\<bar>s\<bar> < int overflow_threshold" unfolding s_def using r by (rule Add_finite_result)
  have "2 ^ 53 * \<bar>scaled (Add x y) - s\<bar> \<le> \<bar>s\<bar>"
  proof (cases "s = 0")
    case True
    have "Add x y = (if sign_bit x \<and> sign_bit y then neg_zero else pos_zero)"
      using f True unfolding s_def by (rule Add_finite_zero)
    then have "scaled (Add x y) = 0" by (simp add: scaled_zeros)
    then show ?thesis using True by simp
  next
    case False
    define n where "n = nat \<bar>s\<bar>"
    have p: "pattern (Add x y) = round_mag n"
      unfolding n_def s_def using f False [unfolded s_def] by (rule Add_finite_pattern)
    have l: "n < overflow_threshold" using b by (simp add: n_def)
    have v: "scaled (Add x y) = (if s < 0 then - int (magnitude (Add x y)) else int (magnitude (Add x y)))"
      unfolding s_def using f False [unfolded s_def] b [unfolded s_def] by (rule Add_finite_value)
    have e: "2 ^ 53 * \<bar>int (magnitude (Add x y)) - int n\<bar> \<le> int n"
      using l p by (rule round_mag_error)
    have an: "\<bar>s\<bar> = int n" by (simp add: n_def)
    have "\<bar>scaled (Add x y) - s\<bar> = \<bar>int (magnitude (Add x y)) - int n\<bar>"
      using v an by (auto simp: abs_if split: if_splits)
    then show ?thesis using e an by simp
  qed
  then show ?thesis unfolding s_def .
qed

text \<open>A sum of two multiples of \<open>2 ^ e\<close> that stays below \<open>2 ^ (53 + e)\<close> is not rounded.\<close>

lemma Add_exact:
  assumes r: "is_finite (Add x y)"
    and d: "2 ^ e dvd scaled x" "2 ^ e dvd scaled y"
    and b: "\<bar>scaled x + scaled y\<bar> < 2 ^ (53 + e)"
  shows "scaled (Add x y) = scaled x + scaled y"
proof -
  define s where "s = scaled x + scaled y"
  have f: "is_finite x" "is_finite y" using Add_finite_operands [OF r] by simp_all
  have o: "\<bar>s\<bar> < int overflow_threshold" unfolding s_def using r by (rule Add_finite_result)
  have "scaled (Add x y) = s"
  proof (cases "s = 0")
    case True
    have "Add x y = (if sign_bit x \<and> sign_bit y then neg_zero else pos_zero)"
      using f True unfolding s_def by (rule Add_finite_zero)
    then have "scaled (Add x y) = 0" by (simp add: scaled_zeros)
    then show ?thesis using True by simp
  next
    case False
    define n where "n = nat \<bar>s\<bar>"
    have an: "\<bar>s\<bar> = int n" by (simp add: n_def)
    have p: "pattern (Add x y) = round_mag n"
      unfolding n_def s_def using f False [unfolded s_def] by (rule Add_finite_pattern)
    have l: "n < overflow_threshold" using o by (simp add: n_def)
    have v: "scaled (Add x y) = (if s < 0 then - int (magnitude (Add x y)) else int (magnitude (Add x y)))"
      unfolding s_def using f False [unfolded s_def] o [unfolded s_def] by (rule Add_finite_value)
    have "(2::int) ^ e dvd s" unfolding s_def using d by (rule dvd_add)
    then have "(2::int) ^ e dvd \<bar>s\<bar>" by simp
    then have "int (2 ^ e) dvd int n" unfolding an by simp
    then have dn: "2 ^ e dvd n" by (simp only: int_dvd_int_iff)
    have "int n < int (2 ^ (53 + e))" using b unfolding s_def [symmetric] an by simp
    then have bn: "n < 2 ^ (53 + e)" by (simp only: of_nat_less_iff)
    have "magnitude (Add x y) = n" using l p dn bn by (rule round_mag_exact)
    then show ?thesis using v an by (auto simp: abs_if split: if_splits)
  qed
  then show ?thesis unfolding s_def .
qed

text \<open>A finite float64 is worth at most \<open>(2 ^ 53 - 1) * 2 ^ 2045\<close> units.\<close>

lemma magnitude_finite_lt:
  assumes "is_finite c"
  shows "magnitude c < overflow_threshold"
proof (cases "expo c = 0")
  case True
  have "frac c < 2 ^ 52" by (rule frac_lt)
  also have "(2::nat) ^ 52 \<le> 2 ^ 53" by simp
  also have "\<dots> \<le> overflow_threshold" by (rule threshold_big)
  finally show ?thesis using True by (simp add: magnitude_def)
next
  case False
  have "expo c - 1 \<le> 2045" using assms by (simp add: is_finite_def)
  then have p: "(2::nat) ^ (expo c - 1) \<le> 2 ^ 2045" by (intro power_increasing) simp_all
  have "2 ^ 52 + frac c \<le> 2 ^ 53 - 1" using frac_lt [of c] by simp
  then have "(2 ^ 52 + frac c) * 2 ^ (expo c - 1) \<le> (2 ^ 53 - 1) * 2 ^ 2045"
    using p by (rule mult_le_mono)
  also have "\<dots> < overflow_threshold" unfolding overflow_threshold_def by simp
  finally show ?thesis using False by (simp add: magnitude_def)
qed

section \<open>Verify\<close>

text \<open>
  C2. For every pair of float64 inputs \<open>got\<close> and \<open>want\<close>, whether they differ or not
  and whether they are NaN or infinite or not, \<open>Verify got want\<close> returns true: \<open>Verify\<close>
  is a constant function.
\<close>

theorem Verify_constant: "Verify got want = True"
  by (simp add: Verify_def)

section \<open>Add at the zeros and at the non-finite values\<close>

text \<open>
  C5. \<open>Add 0 0\<close> is the float64 zero: the result is the pattern of \<open>+0\<close>, it compares
  equal to zero with \<^verbatim>\<open>==\<close>, and \<^verbatim>\<open>TestAddZeros\<close> returns without failing the test.
\<close>

theorem Add_zeros:
  "Add pos_zero pos_zero = pos_zero \<and> f64_eq (Add pos_zero pos_zero) pos_zero \<and>
   TestAddZeros t = (Returns (), t)"
proof -
  have a: "Add pos_zero pos_zero = pos_zero"
    by (simp add: Add_def f64_add_def pos_zero_def is_nan_def is_inf_def expo_def frac_def
        scaled_def magnitude_def sign_bit_def)
  have e: "f64_eq pos_zero pos_zero"
    by (simp add: f64_eq_def pos_zero_def is_nan_def is_inf_def expo_def frac_def)
  show ?thesis by (simp add: TestAddZeros_def a e)
qed

text \<open>
  C8. At its non-finite edge cases \<open>Add\<close> follows IEEE 754: for every float64 \<open>y\<close>,
  adding a NaN to \<open>y\<close> gives a NaN, and \<open>+Inf\<close> plus \<open>-Inf\<close> is a NaN.
\<close>

theorem Add_nan_cases:
  "(is_nan x \<longrightarrow> is_nan (Add x y)) \<and> is_nan (Add pos_inf neg_inf)"
proof -
  have "\<not> is_nan pos_inf" "\<not> is_nan neg_inf"
    using is_inf_pos_inf is_inf_neg_inf nan_not_inf by blast+
  then show ?thesis
    by (simp add: Add_def f64_add_def is_nan_quiet_nan is_inf_pos_inf is_inf_neg_inf sign_bit_infs)
qed

theorem Add_nan_cases_witness:
  "is_nan quiet_nan \<and> is_nan (Add quiet_nan f64_one) \<and> is_nan (Add pos_inf neg_inf)"
  using Add_nan_cases [of quiet_nan f64_one] by (simp add: is_nan_quiet_nan)

section \<open>Add returns the float64 sum\<close>

text \<open>
  C1. For every pair of float64 inputs, \<open>Add x y\<close> is the float64 sum of \<open>x\<close> and \<open>y\<close>:
  their arithmetic sum as IEEE 754 addition delivers it. A NaN operand gives a NaN. Two
  infinities give that infinity when their signs agree and a NaN when they differ; an
  infinity and a finite number give the infinity. For two finite operands, with \<open>s\<close>
  their exact sum: when \<open>s\<close> is zero the result is a zero, the negative one only when
  both operands are negative; when the magnitude of \<open>s\<close> reaches the overflow threshold
  the result is the infinity of the sign of \<open>s\<close>; otherwise the result is a finite
  float64 of the sign of \<open>s\<close>, no finite float64 \<open>c\<close> is nearer to \<open>s\<close> than the
  result is, and when a different value is just as near, the fraction of the result is
  even. And the result is worth \<open>s\<close> itself whenever \<open>s\<close> is the value of a finite
  float64.
\<close>

theorem Add_float64_sum:
  "(is_nan x \<or> is_nan y \<longrightarrow> is_nan (Add x y)) \<and>
   (is_inf x \<and> is_inf y \<longrightarrow> (if sign_bit x = sign_bit y then Add x y = x else is_nan (Add x y))) \<and>
   (is_inf x \<and> is_finite y \<longrightarrow> Add x y = x) \<and>
   (is_finite x \<and> is_inf y \<longrightarrow> Add x y = y) \<and>
   (is_finite x \<and> is_finite y \<longrightarrow>
      (if scaled x + scaled y = 0
       then Add x y = (if sign_bit x \<and> sign_bit y then neg_zero else pos_zero)
       else if int overflow_threshold \<le> \<bar>scaled x + scaled y\<bar>
       then Add x y = (if scaled x + scaled y < 0 then neg_inf else pos_inf)
       else is_finite (Add x y) \<and> sign_bit (Add x y) = (scaled x + scaled y < 0) \<and>
            (is_finite c \<longrightarrow>
               \<bar>scaled (Add x y) - (scaled x + scaled y)\<bar> \<le> \<bar>scaled c - (scaled x + scaled y)\<bar> \<and>
               (scaled c \<noteq> scaled (Add x y) \<and>
                \<bar>scaled c - (scaled x + scaled y)\<bar> = \<bar>scaled (Add x y) - (scaled x + scaled y)\<bar> \<longrightarrow>
                  even (frac (Add x y)))))) \<and>
   (is_finite x \<and> is_finite y \<and> is_finite c \<and> scaled c = scaled x + scaled y \<longrightarrow>
      scaled (Add x y) = scaled x + scaled y)"
proof (intro conjI impI)
  assume "is_nan x \<or> is_nan y"
  then show "is_nan (Add x y)" by (simp add: Add_def f64_add_def is_nan_quiet_nan)
next
  assume a: "is_inf x \<and> is_inf y"
  then have "\<not> is_nan x" "\<not> is_nan y" using nan_not_inf by blast+
  with a show "if sign_bit x = sign_bit y then Add x y = x else is_nan (Add x y)"
    by (simp add: Add_def f64_add_def is_nan_quiet_nan)
next
  assume a: "is_inf x \<and> is_finite y"
  then have "\<not> is_nan x" "\<not> is_nan y" "\<not> is_inf y"
    using nan_not_inf finite_not_nan_inf by blast+
  with a show "Add x y = x" by (simp add: Add_def f64_add_def)
next
  assume a: "is_finite x \<and> is_inf y"
  then have "\<not> is_nan x" "\<not> is_nan y" "\<not> is_inf x"
    using nan_not_inf finite_not_nan_inf by blast+
  with a show "Add x y = y" by (simp add: Add_def f64_add_def)
next
  assume f: "is_finite x \<and> is_finite y"
  then have fx: "is_finite x" and fy: "is_finite y" by simp_all
  define s where "s = scaled x + scaled y"
  have "if s = 0
       then Add x y = (if sign_bit x \<and> sign_bit y then neg_zero else pos_zero)
       else if int overflow_threshold \<le> \<bar>s\<bar>
       then Add x y = (if s < 0 then neg_inf else pos_inf)
       else is_finite (Add x y) \<and> sign_bit (Add x y) = (s < 0) \<and>
            (is_finite c \<longrightarrow>
               \<bar>scaled (Add x y) - s\<bar> \<le> \<bar>scaled c - s\<bar> \<and>
               (scaled c \<noteq> scaled (Add x y) \<and> \<bar>scaled c - s\<bar> = \<bar>scaled (Add x y) - s\<bar> \<longrightarrow>
                  even (frac (Add x y))))"
  proof (cases "s = 0")
    case True
    then show ?thesis using Add_finite_zero [OF fx fy] by (simp add: s_def)
  next
    case nz: False
    show ?thesis
    proof (cases "int overflow_threshold \<le> \<bar>s\<bar>")
      case True
      have i: "is_inf (Add x y)" and g: "sign_bit (Add x y) = (s < 0)"
        using Add_overflow [OF fx fy True [unfolded s_def]] by (simp_all add: s_def)
      have "Add x y = (if s < 0 then neg_inf else pos_inf)"
      proof (cases "s < 0")
        case True
        have "Add x y = neg_inf"
          using i is_inf_neg_inf by (rule inf_same_sign_eq) (simp add: g True sign_bit_infs)
        then show ?thesis using True by simp
      next
        case False
        have "Add x y = pos_inf"
          using i is_inf_pos_inf by (rule inf_same_sign_eq) (simp add: g False sign_bit_infs)
        then show ?thesis using False by simp
      qed
      then show ?thesis using nz True by simp
    next
      case False
      then have b: "\<bar>scaled x + scaled y\<bar> < int overflow_threshold" by (simp add: s_def)
      have fin: "is_finite (Add x y)"
        using fx fy nz [unfolded s_def] b by (rule Add_finite_value)
      have g: "sign_bit (Add x y) = (s < 0)"
        unfolding s_def using fx fy nz [unfolded s_def] by (rule Add_finite_pattern)
      have n: "\<bar>scaled (Add x y) - s\<bar> \<le> \<bar>scaled c - s\<bar>" if "is_finite c"
        unfolding s_def using fx fy b that by (rule Add_nearest)
      have t: "even (frac (Add x y))"
        if "is_finite c" "scaled c \<noteq> scaled (Add x y)" "\<bar>scaled c - s\<bar> = \<bar>scaled (Add x y) - s\<bar>"
        using fx fy b that unfolding s_def by (rule Add_nearest)
      show ?thesis using nz False fin g n t by auto
    qed
  qed
  then show "if scaled x + scaled y = 0
       then Add x y = (if sign_bit x \<and> sign_bit y then neg_zero else pos_zero)
       else if int overflow_threshold \<le> \<bar>scaled x + scaled y\<bar>
       then Add x y = (if scaled x + scaled y < 0 then neg_inf else pos_inf)
       else is_finite (Add x y) \<and> sign_bit (Add x y) = (scaled x + scaled y < 0) \<and>
            (is_finite c \<longrightarrow>
               \<bar>scaled (Add x y) - (scaled x + scaled y)\<bar> \<le> \<bar>scaled c - (scaled x + scaled y)\<bar> \<and>
               (scaled c \<noteq> scaled (Add x y) \<and>
                \<bar>scaled c - (scaled x + scaled y)\<bar> = \<bar>scaled (Add x y) - (scaled x + scaled y)\<bar> \<longrightarrow>
                  even (frac (Add x y))))"
    unfolding s_def .
next
  assume h: "is_finite x \<and> is_finite y \<and> is_finite c \<and> scaled c = scaled x + scaled y"
  then have fx: "is_finite x" and fy: "is_finite y" and fc: "is_finite c"
    and sc: "scaled c = scaled x + scaled y" by simp_all
  have "\<bar>scaled c\<bar> < int overflow_threshold"
    unfolding abs_scaled using fc by (simp add: magnitude_finite_lt)
  then have b: "\<bar>scaled x + scaled y\<bar> < int overflow_threshold" unfolding sc .
  have "\<bar>scaled (Add x y) - (scaled x + scaled y)\<bar> \<le> \<bar>scaled c - (scaled x + scaled y)\<bar>"
    using fx fy b fc by (rule Add_nearest)
  then show "scaled (Add x y) = scaled x + scaled y" unfolding sc by simp
qed

text \<open>
  At \<open>2 ^ 53 + 1\<close>, where the exact sum is halfway between \<open>2 ^ 53\<close> and \<open>2 ^ 53 + 2\<close>
  and the result is the even one; at the largest finite float64 added to itself, which
  overflows; and at \<^verbatim>\<open>1 + 10\<close>, whose exact sum 11 is a float64.
\<close>

theorem Add_float64_sum_witness:
  "is_finite f64_2p53 \<and> is_finite f64_one \<and> is_finite 0x4340000000000001 \<and>
   scaled f64_2p53 + scaled f64_one \<noteq> 0 \<and>
   \<not> int overflow_threshold \<le> \<bar>scaled f64_2p53 + scaled f64_one\<bar> \<and>
   Add f64_2p53 f64_one = f64_2p53 \<and>
   \<bar>scaled (Add f64_2p53 f64_one) - (scaled f64_2p53 + scaled f64_one)\<bar>
     \<le> \<bar>scaled 0x4340000000000001 - (scaled f64_2p53 + scaled f64_one)\<bar> \<and>
   scaled 0x4340000000000001 \<noteq> scaled (Add f64_2p53 f64_one) \<and>
   \<bar>scaled 0x4340000000000001 - (scaled f64_2p53 + scaled f64_one)\<bar>
     = \<bar>scaled (Add f64_2p53 f64_one) - (scaled f64_2p53 + scaled f64_one)\<bar> \<and>
   even (frac (Add f64_2p53 f64_one)) \<and>
   is_finite max_float \<and>
   int overflow_threshold \<le> \<bar>scaled max_float + scaled max_float\<bar> \<and>
   Add max_float max_float = pos_inf \<and>
   is_finite f64_ten \<and> is_finite 0x4026000000000000 \<and>
   scaled 0x4026000000000000 = scaled f64_one + scaled f64_ten \<and>
   scaled (Add f64_one f64_ten) = scaled f64_one + scaled f64_ten"
proof -
  have f: "is_finite f64_2p53" "is_finite f64_one" "is_finite 0x4340000000000001"
    by (simp_all add: field_defs f64_2p53_def f64_one_def)
  have nz: "scaled f64_2p53 + scaled f64_one \<noteq> 0"
    by (simp add: field_defs f64_2p53_def f64_one_def)
  have no: "\<not> int overflow_threshold \<le> \<bar>scaled f64_2p53 + scaled f64_one\<bar>"
    by (simp add: field_defs f64_2p53_def f64_one_def overflow_threshold_def)
  have ne: "scaled 0x4340000000000001 \<noteq> scaled (Add f64_2p53 f64_one)"
    unfolding Add_2p53_one by (simp add: field_defs f64_2p53_def)
  have eq: "\<bar>scaled 0x4340000000000001 - (scaled f64_2p53 + scaled f64_one)\<bar>
     = \<bar>scaled (Add f64_2p53 f64_one) - (scaled f64_2p53 + scaled f64_one)\<bar>"
    unfolding Add_2p53_one by (simp add: field_defs f64_2p53_def f64_one_def)
  have t: "\<bar>scaled (Add f64_2p53 f64_one) - (scaled f64_2p53 + scaled f64_one)\<bar>
     \<le> \<bar>scaled 0x4340000000000001 - (scaled f64_2p53 + scaled f64_one)\<bar> \<and>
     even (frac (Add f64_2p53 f64_one))"
    using Add_float64_sum [of f64_2p53 f64_one "0x4340000000000001"] f nz no ne eq by simp
  have fm: "is_finite max_float" by (simp add: field_defs max_float_def)
  have ov: "int overflow_threshold \<le> \<bar>scaled max_float + scaled max_float\<bar>"
    by (simp add: field_defs max_float_def overflow_threshold_def)
  have pos: "\<not> scaled max_float + scaled max_float < 0" "scaled max_float + scaled max_float \<noteq> 0"
    by (simp_all add: field_defs max_float_def)
  have m: "Add max_float max_float = pos_inf"
    using Add_float64_sum [of max_float max_float] fm ov pos by simp
  have a: "Add f64_2p53 f64_one = f64_2p53"
    using Add_2p53_one by (simp add: f64_2p53_def)
  have g: "is_finite f64_ten" "is_finite 0x4026000000000000"
    by (simp_all add: field_defs f64_ten_def)
  have v: "scaled 0x4026000000000000 = scaled f64_one + scaled f64_ten"
    by (simp add: field_defs f64_one_def f64_ten_def)
  have x: "scaled (Add f64_one f64_ten) = scaled f64_one + scaled f64_ten"
    using Add_float64_sum [of f64_one f64_ten "0x4026000000000000"] f(2) g v by blast
  show ?thesis
    using f nz no a ne eq t fm ov m g v x by blast
qed

section \<open>Commutativity\<close>

text \<open>
  C3, as stated, fails where the sum is a NaN: \<open>Add\<close> of a NaN and 1 is a NaN in either
  order, and \<^verbatim>\<open>==\<close> holds of no NaN.
\<close>

theorem Add_commutative_counterexample:
  "\<not> f64_eq (Add quiet_nan f64_one) (Add f64_one quiet_nan)"
  by (simp add: Add_def f64_add_def f64_eq_def is_nan_quiet_nan)

text \<open>
  C3, amended. For every pair of float64 inputs, \<open>Add x y\<close> is a NaN exactly when
  \<open>Add y x\<close> is; and when the sum is not a NaN the two orders give the same float64,
  bit for bit, which \<^verbatim>\<open>==\<close> reports equal. No tolerance is needed.
\<close>

theorem Add_commutative:
  "(is_nan (Add x y) \<longleftrightarrow> is_nan (Add y x)) \<and>
   (\<not> is_nan (Add x y) \<longrightarrow> Add x y = Add y x \<and> f64_eq (Add x y) (Add y x))"
  by (simp add: Add_def f64_add_commute [of x y] f64_eq_refl)

theorem Add_commutative_witness:
  "\<not> is_nan (Add f64_one f64_ten) \<and> Add f64_one f64_ten = Add f64_ten f64_one \<and>
   f64_eq (Add f64_one f64_ten) (Add f64_ten f64_one) \<and>
   Add f64_ten f64_one = 0x4026000000000000"
proof -
  have n: "\<not> is_nan (Add f64_one f64_ten)"
    unfolding Add_one_ten by (simp add: is_nan_def expo_def frac_def)
  show ?thesis
    using n Add_commutative [of f64_one f64_ten] Add_one_ten by (auto simp: f64_eq_refl)
qed

section \<open>Associativity\<close>

text \<open>
  C4, as stated, fails, and by more than any tolerance. With \<open>x = 1\<close>, \<open>y = 2 ^ 100\<close>
  and \<open>z = - 2 ^ 100\<close>, the 1 is rounded away in \<open>x + y\<close>, so \<open>(x + y) + z\<close> is 0 while
  \<open>x + (y + z)\<close> is 1. With \<open>x = y\<close> the largest finite float64 and \<open>z\<close> its negation,
  \<open>x + y\<close> overflows, so \<open>(x + y) + z\<close> is \<open>+Inf\<close> while \<open>x + (y + z)\<close> is \<open>x\<close>.
\<close>

theorem Add_associative_counterexample:
  "Add (Add f64_one f64_2p100) neg_2p100 = pos_zero \<and>
   Add f64_one (Add f64_2p100 neg_2p100) = f64_one \<and>
   \<not> f64_eq (Add (Add f64_one f64_2p100) neg_2p100) (Add f64_one (Add f64_2p100 neg_2p100)) \<and>
   Add (Add max_float max_float) neg_max_float = pos_inf \<and>
   Add max_float (Add max_float neg_max_float) = max_float \<and>
   \<not> f64_eq (Add (Add max_float max_float) neg_max_float)
        (Add max_float (Add max_float neg_max_float))"
proof -
  have a: "\<not> f64_eq pos_zero f64_one"
    by (simp add: f64_eq_def field_defs pos_zero_def f64_one_def)
  have b: "\<not> f64_eq pos_inf max_float"
    by (simp add: f64_eq_def field_defs pos_inf_def max_float_def)
  show ?thesis
    unfolding Add_one_2p100 Add_2p100_neg Add_one_zero Add_max_max Add_inf_neg_max
      Add_max_neg_max Add_max_zero
    using a b by simp
qed

text \<open>
  C4, amended. For every triple of float64 inputs for which \<open>Add (Add x y) z\<close> and
  \<open>Add x (Add y z)\<close> are both finite, the two results agree within the rounding of the
  four additions involved, each of which is off by at most one part in \<open>2 ^ 53\<close> of
  its exact sum: \<open>2 ^ 53\<close> times their distance is at most the sum of the magnitudes
  of the four exact sums \<open>x + y\<close>, \<open>Add x y + z\<close>, \<open>y + z\<close> and \<open>x + Add y z\<close>. The
  tolerance is relative to the intermediate sums, not to the result. The two results
  are equal under \<^verbatim>\<open>==\<close>, and worth the exact sum of the three inputs, when the
  inputs are multiples of one power of two \<open>2 ^ e\<close> and their magnitudes add up to
  less than \<open>2 ^ (53 + e)\<close>: then no sum is rounded.
\<close>

theorem Add_associative_within_rounding:
  assumes "is_finite (Add (Add x y) z)" and "is_finite (Add x (Add y z))"
  shows "2 ^ 53 * \<bar>scaled (Add (Add x y) z) - scaled (Add x (Add y z))\<bar>
           \<le> \<bar>scaled x + scaled y\<bar> + \<bar>scaled (Add x y) + scaled z\<bar>
             + \<bar>scaled y + scaled z\<bar> + \<bar>scaled x + scaled (Add y z)\<bar> \<and>
         (2 ^ e dvd scaled x \<and> 2 ^ e dvd scaled y \<and> 2 ^ e dvd scaled z \<and>
          \<bar>scaled x\<bar> + \<bar>scaled y\<bar> + \<bar>scaled z\<bar> < 2 ^ (53 + e) \<longrightarrow>
            scaled (Add (Add x y) z) = scaled x + scaled y + scaled z \<and>
            f64_eq (Add (Add x y) z) (Add x (Add y z)))"
proof (intro conjI impI)
  have fxy: "is_finite (Add x y)" using Add_finite_operands [OF assms(1)] by simp
  have fyz: "is_finite (Add y z)" using Add_finite_operands [OF assms(2)] by simp
  define e1 where "e1 = scaled (Add x y) - (scaled x + scaled y)"
  define e2 where "e2 = scaled (Add (Add x y) z) - (scaled (Add x y) + scaled z)"
  define e3 where "e3 = scaled (Add y z) - (scaled y + scaled z)"
  define e4 where "e4 = scaled (Add x (Add y z)) - (scaled x + scaled (Add y z))"
  have b1: "2 ^ 53 * \<bar>e1\<bar> \<le> \<bar>scaled x + scaled y\<bar>"
    unfolding e1_def using fxy by (rule Add_error)
  have b2: "2 ^ 53 * \<bar>e2\<bar> \<le> \<bar>scaled (Add x y) + scaled z\<bar>"
    unfolding e2_def using assms(1) by (rule Add_error)
  have b3: "2 ^ 53 * \<bar>e3\<bar> \<le> \<bar>scaled y + scaled z\<bar>"
    unfolding e3_def using fyz by (rule Add_error)
  have b4: "2 ^ 53 * \<bar>e4\<bar> \<le> \<bar>scaled x + scaled (Add y z)\<bar>"
    unfolding e4_def using assms(2) by (rule Add_error)
  have "scaled (Add (Add x y) z) - scaled (Add x (Add y z)) = e1 + e2 - e3 - e4"
    by (simp add: e1_def e2_def e3_def e4_def)
  then have "\<bar>scaled (Add (Add x y) z) - scaled (Add x (Add y z))\<bar> \<le> \<bar>e1\<bar> + \<bar>e2\<bar> + \<bar>e3\<bar> + \<bar>e4\<bar>"
    by linarith
  then have "2 ^ 53 * \<bar>scaled (Add (Add x y) z) - scaled (Add x (Add y z))\<bar>
             \<le> 2 ^ 53 * (\<bar>e1\<bar> + \<bar>e2\<bar> + \<bar>e3\<bar> + \<bar>e4\<bar>)"
    by (rule mult_left_mono) simp
  also have "\<dots> = 2 ^ 53 * \<bar>e1\<bar> + 2 ^ 53 * \<bar>e2\<bar> + 2 ^ 53 * \<bar>e3\<bar> + 2 ^ 53 * \<bar>e4\<bar>"
    by (simp only: distrib_left)
  also have "\<dots> \<le> \<bar>scaled x + scaled y\<bar> + \<bar>scaled (Add x y) + scaled z\<bar>
             + \<bar>scaled y + scaled z\<bar> + \<bar>scaled x + scaled (Add y z)\<bar>"
    by (intro add_mono b1 b2 b3 b4)
  finally show "2 ^ 53 * \<bar>scaled (Add (Add x y) z) - scaled (Add x (Add y z))\<bar>
           \<le> \<bar>scaled x + scaled y\<bar> + \<bar>scaled (Add x y) + scaled z\<bar>
             + \<bar>scaled y + scaled z\<bar> + \<bar>scaled x + scaled (Add y z)\<bar>" .
next
  assume h: "2 ^ e dvd scaled x \<and> 2 ^ e dvd scaled y \<and> 2 ^ e dvd scaled z \<and>
          \<bar>scaled x\<bar> + \<bar>scaled y\<bar> + \<bar>scaled z\<bar> < 2 ^ (53 + e)"
  have fxy: "is_finite (Add x y)" using Add_finite_operands [OF assms(1)] by simp
  have fyz: "is_finite (Add y z)" using Add_finite_operands [OF assms(2)] by simp
  have dx: "2 ^ e dvd scaled x" and dy: "2 ^ e dvd scaled y" and dz: "2 ^ e dvd scaled z"
    using h by simp_all
  have "\<bar>scaled x + scaled y\<bar> < 2 ^ (53 + e)" using h by linarith
  with fxy dx dy have xy: "scaled (Add x y) = scaled x + scaled y" by (rule Add_exact)
  have "\<bar>scaled y + scaled z\<bar> < 2 ^ (53 + e)" using h by linarith
  with fyz dy dz have yz: "scaled (Add y z) = scaled y + scaled z" by (rule Add_exact)
  have dxy: "2 ^ e dvd scaled (Add x y)" unfolding xy using dx dy by (rule dvd_add)
  have dyz: "2 ^ e dvd scaled (Add y z)" unfolding yz using dy dz by (rule dvd_add)
  have "\<bar>scaled (Add x y) + scaled z\<bar> < 2 ^ (53 + e)" unfolding xy using h by linarith
  with assms(1) dxy dz have l: "scaled (Add (Add x y) z) = scaled (Add x y) + scaled z"
    by (rule Add_exact)
  have "\<bar>scaled x + scaled (Add y z)\<bar> < 2 ^ (53 + e)" unfolding yz using h by linarith
  with assms(2) dx dyz have r: "scaled (Add x (Add y z)) = scaled x + scaled (Add y z)"
    by (rule Add_exact)
  show "scaled (Add (Add x y) z) = scaled x + scaled y + scaled z" unfolding l xy ..
  show "f64_eq (Add (Add x y) z) (Add x (Add y z))"
    using assms finite_not_nan_inf [OF assms(1)] finite_not_nan_inf [OF assms(2)]
    by (simp add: f64_eq_def l r xy yz)
qed

text \<open>
  At \<^verbatim>\<open>0.1, 0.2, 0.3\<close> the two results differ in the last bit, within the bound; at
  \<^verbatim>\<open>1, 10, 1\<close>, multiples of 1 that add up to 12, they are equal.
\<close>

theorem Add_associative_within_rounding_witness:
  "is_finite (Add (Add f64_tenth f64_fifth) f64_three_tenths) \<and>
   is_finite (Add f64_tenth (Add f64_fifth f64_three_tenths)) \<and>
   Add (Add f64_tenth f64_fifth) f64_three_tenths = 0x3FE3333333333334 \<and>
   Add f64_tenth (Add f64_fifth f64_three_tenths) = 0x3FE3333333333333 \<and>
   2 ^ 53 * \<bar>scaled (Add (Add f64_tenth f64_fifth) f64_three_tenths)
              - scaled (Add f64_tenth (Add f64_fifth f64_three_tenths))\<bar>
     \<le> \<bar>scaled f64_tenth + scaled f64_fifth\<bar>
       + \<bar>scaled (Add f64_tenth f64_fifth) + scaled f64_three_tenths\<bar>
       + \<bar>scaled f64_fifth + scaled f64_three_tenths\<bar>
       + \<bar>scaled f64_tenth + scaled (Add f64_fifth f64_three_tenths)\<bar> \<and>
   is_finite (Add (Add f64_one f64_ten) f64_one) \<and>
   is_finite (Add f64_one (Add f64_ten f64_one)) \<and>
   2 ^ 1074 dvd scaled f64_one \<and> 2 ^ 1074 dvd scaled f64_ten \<and>
   \<bar>scaled f64_one\<bar> + \<bar>scaled f64_ten\<bar> + \<bar>scaled f64_one\<bar> < 2 ^ (53 + 1074) \<and>
   scaled (Add (Add f64_one f64_ten) f64_one) = scaled f64_one + scaled f64_ten + scaled f64_one \<and>
   f64_eq (Add (Add f64_one f64_ten) f64_one) (Add f64_one (Add f64_ten f64_one)) \<and>
   Add (Add f64_one f64_ten) f64_one = 0x4028000000000000"
proof -
  have l: "Add (Add f64_tenth f64_fifth) f64_three_tenths = 0x3FE3333333333334"
    unfolding Add_tenth_fifth Add_three_tenths_up ..
  have r: "Add f64_tenth (Add f64_fifth f64_three_tenths) = 0x3FE3333333333333"
    unfolding Add_fifth_three_tenths Add_tenth_half ..
  have fl: "is_finite (Add (Add f64_tenth f64_fifth) f64_three_tenths)"
    unfolding l by (simp add: is_finite_def expo_def)
  have fr: "is_finite (Add f64_tenth (Add f64_fifth f64_three_tenths))"
    unfolding r by (simp add: is_finite_def expo_def)
  have c1: "Add f64_ten f64_one = 0x4026000000000000"
    using Add_one_ten by (simp add: Add_def f64_add_commute [of f64_ten f64_one])
  have c2: "Add f64_one 0x4026000000000000 = 0x4028000000000000"
    using Add_eleven_one by (simp add: Add_def f64_add_commute [of f64_one])
  have l': "Add (Add f64_one f64_ten) f64_one = 0x4028000000000000"
    unfolding Add_one_ten Add_eleven_one ..
  have r': "Add f64_one (Add f64_ten f64_one) = 0x4028000000000000"
    unfolding c1 c2 ..
  have fl': "is_finite (Add (Add f64_one f64_ten) f64_one)"
    unfolding l' by (simp add: is_finite_def expo_def)
  have fr': "is_finite (Add f64_one (Add f64_ten f64_one))"
    unfolding r' by (simp add: is_finite_def expo_def)
  have s1: "scaled f64_one = 1 * 2 ^ 1074" by (simp add: field_defs f64_one_def)
  have s10: "scaled f64_ten = 10 * 2 ^ 1074" by (simp add: field_defs f64_ten_def)
  have d1: "2 ^ 1074 dvd scaled f64_one" unfolding s1 by (rule dvd_triv_right)
  have d10: "2 ^ 1074 dvd scaled f64_ten" unfolding s10 by (rule dvd_triv_right)
  have b: "\<bar>scaled f64_one\<bar> + \<bar>scaled f64_ten\<bar> + \<bar>scaled f64_one\<bar> < 2 ^ (53 + 1074)"
    by (simp add: field_defs f64_one_def f64_ten_def)
  have t1: "2 ^ 53 * \<bar>scaled (Add (Add f64_tenth f64_fifth) f64_three_tenths)
              - scaled (Add f64_tenth (Add f64_fifth f64_three_tenths))\<bar>
     \<le> \<bar>scaled f64_tenth + scaled f64_fifth\<bar>
       + \<bar>scaled (Add f64_tenth f64_fifth) + scaled f64_three_tenths\<bar>
       + \<bar>scaled f64_fifth + scaled f64_three_tenths\<bar>
       + \<bar>scaled f64_tenth + scaled (Add f64_fifth f64_three_tenths)\<bar>"
    using Add_associative_within_rounding [OF fl fr] by (rule conjunct1)
  have t2: "scaled (Add (Add f64_one f64_ten) f64_one) = scaled f64_one + scaled f64_ten + scaled f64_one \<and>
    f64_eq (Add (Add f64_one f64_ten) f64_one) (Add f64_one (Add f64_ten f64_one))"
    using Add_associative_within_rounding [OF fl' fr', of 1074] d1 d10 b by blast
  show ?thesis
    using l r fl fr t1 fl' fr' d1 d10 b t2 l' by blast
qed

section \<open>The parsing helpers\<close>

text \<open>
  C7. Whatever \<^verbatim>\<open>strconv.ParseFloat\<close> answers on the input:
  \<open>testFloatParserReturnsError\<close> returns a non-nil error exactly when parsing fails, and
  the parsed value with a nil error otherwise; \<open>testFloatParserFails\<close> fails the test
  and stops exactly when parsing fails, and returns the parsed value, the test
  untouched, otherwise.
\<close>

theorem parsers_surface_failure:
  "(snd (testFloatParserReturnsError pf input) \<noteq> None \<longleftrightarrow> snd (pf input) \<noteq> None) \<and>
   (snd (pf input) = None \<longrightarrow> testFloatParserReturnsError pf input = (fst (pf input), None)) \<and>
   (fst (testFloatParserFails pf t input) = Goexit \<longleftrightarrow> snd (pf input) \<noteq> None) \<and>
   (snd (pf input) \<noteq> None \<longrightarrow> failed (snd (testFloatParserFails pf t input))) \<and>
   (snd (pf input) = None \<longrightarrow> testFloatParserFails pf t input = (Returns (fst (pf input)), t))"
  by (cases "pf input")
    (auto simp: testFloatParserReturnsError_def testFloatParserFails_def Fatal_def)

theorem parsers_surface_failure_witness:
  "snd (ParseFloat_sample ''10'') = None \<and>
   testFloatParserReturnsError ParseFloat_sample ''10'' = (f64_ten, None) \<and>
   testFloatParserFails ParseFloat_sample \<lparr>failed = False, logged = []\<rparr> ''10''
     = (Returns f64_ten, \<lparr>failed = False, logged = []\<rparr>) \<and>
   snd (ParseFloat_sample ''ten'') \<noteq> None \<and>
   snd (testFloatParserReturnsError ParseFloat_sample ''ten'') \<noteq> None \<and>
   fst (testFloatParserFails ParseFloat_sample \<lparr>failed = False, logged = []\<rparr> ''ten'') = Goexit \<and>
   failed (snd (testFloatParserFails ParseFloat_sample \<lparr>failed = False, logged = []\<rparr> ''ten''))"
  using parsers_surface_failure [of ParseFloat_sample "''10''" "\<lparr>failed = False, logged = []\<rparr>"]
    parsers_surface_failure [of ParseFloat_sample "''ten''" "\<lparr>failed = False, logged = []\<rparr>"]
  by (simp add: ParseFloat_sample_def)

text \<open>
  C10. On every input that \<^verbatim>\<open>strconv.ParseFloat\<close> parses, the two helpers return the
  same value: \<open>testFloatParserFails\<close> returns, and what it returns is the first component
  of the result of \<open>testFloatParserReturnsError\<close>.
\<close>

theorem parsers_agree_on_success:
  "snd (pf input) = None \<Longrightarrow>
   fst (testFloatParserFails pf t input) = Returns (fst (testFloatParserReturnsError pf input))"
  by (cases "pf input") (simp add: testFloatParserReturnsError_def testFloatParserFails_def)

theorem parsers_agree_on_success_witness:
  "snd (ParseFloat_sample ''10'') = None \<and>
   fst (testFloatParserFails ParseFloat_sample \<lparr>failed = False, logged = []\<rparr> ''10'')
     = Returns (fst (testFloatParserReturnsError ParseFloat_sample ''10'')) \<and>
   fst (testFloatParserReturnsError ParseFloat_sample ''10'') = f64_ten"
proof -
  have h: "snd (ParseFloat_sample ''10'') = None" by (simp add: ParseFloat_sample_def)
  have v: "fst (testFloatParserReturnsError ParseFloat_sample ''10'') = f64_ten"
    by (simp add: testFloatParserReturnsError_def ParseFloat_sample_def)
  show ?thesis
    using h v
      parsers_agree_on_success [of ParseFloat_sample "''10''" "\<lparr>failed = False, logged = []\<rparr>"]
    by simp
qed

section \<open>The environment helper\<close>

text \<open>
  C9, as stated, fails for a name that \<^verbatim>\<open>os.Setenv\<close> rejects: with the empty name,
  unset before the call, both calls of \<^verbatim>\<open>os.Setenv\<close> fail, their errors are dropped,
  and after the closure the variable is still unset, not set to the empty string.
\<close>

theorem testSetENV_unset_counterexample:
  "Map.empty [] = (None :: string option) \<and>
   set_then_restore [] ''bar'' Map.empty [] \<noteq> Some []"
  by (simp add: set_then_restore_def testSetENV_def Setenv_def setenv_accepts_def)

text \<open>
  C9, amended. If the variable named \<open>key\<close> was set before the call, to a value that
  \<^verbatim>\<open>os.Setenv\<close> accepts for it, then after \<open>testSetENV\<close> and its closure the whole
  environment is what it was, so the variable holds its original value. If the variable
  was unset and \<open>key\<close> is a name that \<^verbatim>\<open>os.Setenv\<close> accepts, the closure leaves it set
  to the empty string rather than unset, and nothing else changed. If the variable was
  unset and \<open>key\<close> is a name that \<^verbatim>\<open>os.Setenv\<close> rejects, it stays unset.
\<close>

theorem testSetENV_round_trip:
  "(env key = Some v \<and> setenv_accepts key v \<longrightarrow> set_then_restore key val env = env) \<and>
   (env key = None \<and> setenv_accepts key [] \<longrightarrow> set_then_restore key val env = env(key \<mapsto> [])) \<and>
   (env key = None \<and> \<not> setenv_accepts key [] \<longrightarrow> set_then_restore key val env = env)"
proof (intro conjI impI)
  assume a: "env key = Some v \<and> setenv_accepts key v"
  then have "env(key \<mapsto> v) = env" by (simp add: map_upd_triv)
  with a show "set_then_restore key val env = env"
    by (simp add: set_then_restore_def testSetENV_def Setenv_def Getenv_def)
next
  assume "env key = None \<and> setenv_accepts key []"
  then show "set_then_restore key val env = env(key \<mapsto> [])"
    by (simp add: set_then_restore_def testSetENV_def Setenv_def Getenv_def)
next
  assume a: "env key = None \<and> \<not> setenv_accepts key []"
  then have "\<not> setenv_accepts key val" by (auto simp: setenv_accepts_def)
  with a show "set_then_restore key val env = env"
    by (simp add: set_then_restore_def testSetENV_def Setenv_def Getenv_def)
qed

theorem testSetENV_round_trip_witness:
  "[''foo'' \<mapsto> ''old''] ''foo'' = Some ''old'' \<and> setenv_accepts ''foo'' ''old'' \<and>
   set_then_restore ''foo'' ''bar'' [''foo'' \<mapsto> ''old''] = [''foo'' \<mapsto> ''old''] \<and>
   Map.empty ''foo'' = (None :: string option) \<and> setenv_accepts ''foo'' [] \<and>
   set_then_restore ''foo'' ''bar'' Map.empty = [''foo'' \<mapsto> []] \<and>
   \<not> setenv_accepts [] [] \<and>
   set_then_restore [] ''bar'' Map.empty = Map.empty"
  using testSetENV_round_trip [of "[''foo'' \<mapsto> ''old'']" "''foo''" "''old''" "''bar''"]
    testSetENV_round_trip [of Map.empty "''foo''" "''old''" "''bar''"]
    testSetENV_round_trip [of Map.empty "[]" "''old''" "''bar''"]
  by (simp add: setenv_accepts_def)

end
